theory Spec2Isabelle
  imports Main "HOL-Library.Word"
begin

section \<open>Errors\<close>

text \<open>
  The C++ code reports failures by exceptions (\<open>std::out_of_range\<close>,
  \<open>std::runtime_error\<close>, and \<open>std::length_error\<close> from \<open>std::vector\<close>);
  dereferencing a null pointer or a past-the-end iterator has
  no defined result. Each of them is a value of the model.
\<close>

datatype error = OutOfRange | RuntimeError | LengthError | Undefined

section \<open>\<open>sim::ParticleAncestryMap\<close>\<close>

text \<open>
  \<open>fParticleMap\<close> is a \<open>std::map<int, std::set<int>>\<close>. The range-for loop of
  \<open>GetAncestor\<close> visits its entries in increasing key order, so the map is modelled by
  the list of its entries in that order; \<open>int\<close> is a 32-bit word, and
  \<open>std::numeric_limits<int>::max()\<close> is \<open>INT_MAX\<close>.
\<close>

type_synonym particle_map = "(32 word \<times> 32 word set) list"

definition INT_MAX :: "32 word" where
  "INT_MAX = 2147483647"

fun GetAncestor :: "particle_map \<Rightarrow> 32 word \<Rightarrow> 32 word" where
  "GetAncestor [] trackid = - INT_MAX"
| "GetAncestor ((ancestor, descendants) # fParticleMap) trackid =
     (if trackid \<in> descendants then ancestor else GetAncestor fParticleMap trackid)"

definition Exists :: "32 word \<Rightarrow> bool" where
  "Exists trackid = (trackid \<noteq> - INT_MAX)"

section \<open>\<open>range_t\<close> and \<open>datarange_t\<close>\<close>

text \<open>
  \<open>datarange_t\<close> derives from \<open>range_t<size_type>\<close> (fields \<open>offset\<close> and
  \<open>last\<close>) and adds the vector \<open>values\<close>; the record has the three fields, the
  field \<open>last\<close> under the name \<open>last_index\<close>. Indices (\<open>size_type\<close>, 64 bits)
  are natural numbers, and a sum that the source computes in \<open>size_type\<close> is taken
  modulo \<open>2^64\<close> (\<open>wrap\<close>). Every subtraction below is one whose minuend is at
  least the subtrahend whenever the ranges are ordered.
\<close>

definition wrap :: "nat \<Rightarrow> nat" where
  "wrap n = n mod 2 ^ 64"

record 'a datarange_t =
  offset :: nat
  last_index :: nat
  "values" :: "'a list"

definition relative_index :: "'a datarange_t \<Rightarrow> nat \<Rightarrow> nat" where
  "relative_index r index = index - offset r"

definition range_size :: "'a datarange_t \<Rightarrow> nat" where
  "range_size r = last_index r - offset r"

definition range_empty :: "'a datarange_t \<Rightarrow> bool" where
  "range_empty r = (last_index r \<le> offset r)"

definition range_includes :: "'a datarange_t \<Rightarrow> nat \<Rightarrow> bool" where
  "range_includes r index = (index \<ge> offset r \<and> index < last_index r)"

definition separate :: "'a datarange_t \<Rightarrow> 'a datarange_t \<Rightarrow> bool" where
  "separate r r' = (offset r > last_index r' \<or> last_index r < offset r')"

definition borders :: "'a datarange_t \<Rightarrow> nat \<Rightarrow> bool" where
  "borders r index = (index \<ge> offset r \<and> index \<le> last_index r)"

definition less_range :: "'a datarange_t \<Rightarrow> 'a datarange_t \<Rightarrow> bool" where
  "less_range a b = (offset a < offset b)"

text \<open>The constructor from an offset and the data: \<open>base_t(offset, offset + size)\<close>.\<close>

definition datarange :: "nat \<Rightarrow> 'a list \<Rightarrow> 'a datarange_t" where
  "datarange off data =
     \<lparr>offset = off, last_index = max off (wrap (off + length data)), values = data\<rparr>"

text \<open>\<open>datarange_t::operator[]\<close>: the value at an absolute index.\<close>

definition range_at :: "'a datarange_t \<Rightarrow> nat \<Rightarrow> 'a" where
  "range_at r index = values r ! relative_index r index"

definition range_set :: "'a datarange_t \<Rightarrow> nat \<Rightarrow> 'a \<Rightarrow> 'a datarange_t" where
  "range_set r index v = r\<lparr>values := (values r)[relative_index r index := v]\<rparr>"

text \<open>\<open>std::vector::resize(n, value)\<close> and \<open>std::copy\<close> into a vector from a position.\<close>

definition vector_resize :: "nat \<Rightarrow> 'a \<Rightarrow> 'a list \<Rightarrow> 'a list" where
  "vector_resize n v xs = take n xs @ replicate (n - length xs) v"

fun copy_to :: "'a list \<Rightarrow> nat \<Rightarrow> 'a list \<Rightarrow> 'a list" where
  "copy_to [] d xs = xs"
| "copy_to (y # ys) d xs = copy_to ys (Suc d) (xs[d := y])"

definition resize_range :: "nat \<Rightarrow> 'a \<Rightarrow> 'a datarange_t \<Rightarrow> 'a datarange_t" where
  "resize_range new_size def_value r =
     (let vs = vector_resize new_size def_value (values r)
      in r\<lparr>last_index := wrap (offset r + length vs), values := vs\<rparr>)"

text \<open>
  \<open>datarange_t::extend(index, first, last)\<close>. Its callers pass an index that the
  range borders, so the new size is at most the size of the range plus that of the input.
  Were the sum of the relative index and the size of the input to wrap, \<open>std::copy\<close>
  would write past the values; \<open>copy_to\<close> then leaves out what does not fit.
\<close>

definition extend_range :: "nat \<Rightarrow> 'a list \<Rightarrow> 'a::zero datarange_t \<Rightarrow> 'a datarange_t" where
  "extend_range index data r =
     (let new_size = max (wrap (relative_index r index + length data)) (range_size r)
      in r\<lparr>last_index := wrap (offset r + new_size),
            values := copy_to data (relative_index r index) (vector_resize new_size 0 (values r))\<rparr>)"

definition move_head :: "nat \<Rightarrow> 'a \<Rightarrow> 'a datarange_t \<Rightarrow> 'a datarange_t" where
  "move_head to_index def_value r =
     (if to_index = offset r then r
      else if to_index > offset r
      then r\<lparr>offset := to_index, values := drop (to_index - offset r) (values r)\<rparr>
      else r\<lparr>offset := to_index,
             values := replicate (offset r - to_index) def_value @ values r\<rparr>)"

definition move_tail :: "nat \<Rightarrow> 'a \<Rightarrow> 'a datarange_t \<Rightarrow> 'a datarange_t" where
  "move_tail to_index def_value r = resize_range (relative_index r to_index) def_value r"

section \<open>\<open>lar::sparse_vector\<close>\<close>

text \<open>
  A range iterator is a position in the list \<open>ranges\<close>; \<open>ranges.end()\<close> is its length.
  The capacity of the \<open>std::vector\<close> of ranges is not part of the state. Where the
  source goes on using a reference into the ranges after an insertion (\<open>unset_at\<close>),
  whether the vector had room for one more range is an argument of the operation: without
  room the vector reallocates, the reference dangles, and the operation has no defined
  result.
\<close>

record 'a sparse_vector =
  nominal_size :: nat
  ranges :: "'a datarange_t list"

definition sparse_vector_default :: "'a sparse_vector" where
  "sparse_vector_default = \<lparr>nominal_size = 0, ranges = []\<rparr>"

definition size_sv :: "'a sparse_vector \<Rightarrow> nat" where
  "size_sv s = nominal_size s"

definition erase_at :: "nat \<Rightarrow> 'b list \<Rightarrow> 'b list" where
  "erase_at i xs = take i xs @ drop (Suc i) xs"

definition insert_at :: "nat \<Rightarrow> 'b \<Rightarrow> 'b list \<Rightarrow> 'b list" where
  "insert_at i x xs = take i xs @ x # drop i xs"

text \<open>
  \<open>std::upper_bound\<close> with \<open>datarange_t::less(size_type, range_t)\<close>: the first position
  whose range has its offset above the index. (The binary search finds it on a list sorted
  by offset, which is what the container keeps.)
\<close>

fun upper_bound :: "nat \<Rightarrow> 'a datarange_t list \<Rightarrow> nat" where
  "upper_bound index [] = 0"
| "upper_bound index (r # rs) = (if index < offset r then 0 else Suc (upper_bound index rs))"

definition find_next_range_iter :: "nat \<Rightarrow> 'a datarange_t list \<Rightarrow> nat" where
  "find_next_range_iter index rs = upper_bound index rs"

definition find_range_iter_at_or_after :: "nat \<Rightarrow> 'a datarange_t list \<Rightarrow> nat" where
  "find_range_iter_at_or_after index rs =
     (let after = find_next_range_iter index rs
      in if after \<noteq> 0 \<and> index < last_index (rs ! (after - 1)) then after - 1 else after)"

definition find_extending_range_iter :: "nat \<Rightarrow> 'a datarange_t list \<Rightarrow> nat" where
  "find_extending_range_iter index rs =
     (let it = find_next_range_iter index rs
      in if it \<noteq> 0 \<and> borders (rs ! (it - 1)) index then it - 1 else it)"

definition fix_size :: "'a sparse_vector \<Rightarrow> 'a sparse_vector" where
  "fix_size s =
     (if ranges s \<noteq> []
      then s\<lparr>nominal_size := max (nominal_size s) (last_index (last (ranges s)))\<rparr>
      else s)"

text \<open>
  \<open>insert_range\<close> leaves the list alone when the new range is empty; the iterator it
  returns is the insertion position in both cases.
\<close>

definition insert_range :: "nat \<Rightarrow> 'a datarange_t \<Rightarrow> 'a datarange_t list \<Rightarrow> 'a datarange_t list" where
  "insert_range iInsert data rs = (if range_empty data then rs else insert_at iInsert data rs)"

text \<open>
  The loop of \<open>merge_ranges\<close>: \<open>iNext\<close> is always the position after \<open>iRange\<close>, since
  \<open>erase\<close> returns the position of the erased element.
\<close>

function merge_loop :: "nat \<Rightarrow> 'a::zero datarange_t list \<Rightarrow> 'a datarange_t list" where
  "merge_loop iRange rs =
     (if Suc iRange < length rs
      then (if \<not> borders (rs ! iRange) (offset (rs ! Suc iRange)) then rs
            else merge_loop iRange (erase_at (Suc iRange)
                   (if last_index (rs ! Suc iRange) > last_index (rs ! iRange)
                    then rs[iRange := extend_range (last_index (rs ! iRange))
                           (drop (relative_index (rs ! Suc iRange) (last_index (rs ! iRange)))
                              (values (rs ! Suc iRange)))
                           (rs ! iRange)]
                    else rs)))
      else rs)"
  by pat_completeness auto
termination
  by (relation "measure (\<lambda>(i, rs). length rs)") (auto simp: erase_at_def)

declare merge_loop.simps [simp del]

text \<open>
  \<open>merge_ranges(ranges.end())\<close> would read the range behind the past-the-end iterator:
  it has no defined result.
\<close>

definition merge_ranges :: "nat \<Rightarrow> 'a::zero sparse_vector \<Rightarrow> error + 'a sparse_vector" where
  "merge_ranges iRange s =
     (if iRange \<ge> length (ranges s) then Inl Undefined
      else Inr (fix_size (s\<lparr>ranges := merge_loop iRange (ranges s)\<rparr>)))"

definition add_range :: "nat \<Rightarrow> 'a list \<Rightarrow> 'a::zero sparse_vector \<Rightarrow> error + 'a sparse_vector" where
  "add_range off data s =
     (let rs = ranges s; iInsert = find_next_range_iter off rs
      in if iInsert \<noteq> 0 \<and> borders (rs ! (iInsert - 1)) off
         then merge_ranges (iInsert - 1)
                (s\<lparr>ranges := rs[iInsert - 1 := extend_range off data (rs ! (iInsert - 1))]\<rparr>)
         else merge_ranges iInsert (s\<lparr>ranges := insert_range iInsert (datarange off data) rs\<rparr>))"

text \<open>
  \<open>combine_range\<close>, step (1): the inner loop combines the input into the range
  \<open>destRange\<close> from the position \<open>dest\<close> on, until the data of the range or
  the input is over. It returns the new values, the rest of the input and the new offset.
  The offset counts up inside the range and stays at most the end of the range, so
  \<open>++offset\<close> does not wrap.
\<close>

fun combine_inner ::
  "('a \<Rightarrow> 'a \<Rightarrow> 'a) \<Rightarrow> 'a list \<Rightarrow> nat \<Rightarrow> 'a list \<Rightarrow> nat \<Rightarrow> 'a list \<times> 'a list \<times> nat" where
  "combine_inner op vs dest [] off = (vs, [], off)"
| "combine_inner op vs dest (x # src) off =
     (if Suc dest = length vs then (vs[dest := op (vs ! dest) x], src, Suc off)
      else combine_inner op (vs[dest := op (vs ! dest) x]) (Suc dest) src (Suc off))"

text \<open>
  Step (1) as a whole. When the range at \<open>destRange\<close> does not include the offset,
  nothing happens. When the input is over inside the range, the source leaves its loop
  (\<open>break\<close>): the result then has no input left, and the caller stops on that.
\<close>

definition combine_existing ::
  "('a \<Rightarrow> 'a \<Rightarrow> 'a) \<Rightarrow> 'a list \<Rightarrow> nat \<Rightarrow> nat \<Rightarrow> 'a datarange_t list
     \<Rightarrow> 'a datarange_t list \<times> 'a list \<times> nat \<times> nat" where
  "combine_existing op src off destRange rs =
     (if destRange < length rs \<and> range_includes (rs ! destRange) off
      then (case combine_inner op (values (rs ! destRange))
                   (relative_index (rs ! destRange) off) src off of
              (vs, src1, off1) \<Rightarrow>
                (let rs1 = rs[destRange := (rs ! destRange)\<lparr>values := vs\<rparr>]
                 in if src1 = [] then (rs1, src1, off1, destRange)
                    else (rs1, src1, last_index (rs1 ! destRange), Suc destRange)))
      else (rs, src, off, destRange))"

text \<open>
  Step (2): the data of the new range, \<open>op(void_value, *src)\<close> for at most
  \<open>newRangeSize\<close> elements of the input. The source enters this loop with input left;
  the second equation is not reached from it.
\<close>

fun combine_void :: "('a \<Rightarrow> 'a \<Rightarrow> 'a) \<Rightarrow> 'a \<Rightarrow> nat \<Rightarrow> 'a list \<Rightarrow> 'a list \<times> 'a list" where
  "combine_void op void_value 0 src = ([], src)"
| "combine_void op void_value (Suc n) [] = ([], [])"
| "combine_void op void_value (Suc n) (x # src) =
     (case combine_void op void_value n src of
        (combinedData, src') \<Rightarrow> (op void_value x # combinedData, src'))"

lemma combine_inner_length_src:
  "combine_inner op vs dest src off = (vs', src', off') \<Longrightarrow> src \<noteq> [] \<Longrightarrow> length src' < length src"
proof (induction src arbitrary: vs dest off)
  case Nil
  then show ?case by simp
next
  case (Cons x src)
  show ?case
  proof (cases "Suc dest = length vs \<or> src = []")
    case True
    with Cons.prems show ?thesis by (auto split: if_splits)
  next
    case False
    with Cons.prems Cons.IH [of "vs[dest := op (vs ! dest) x]" "Suc dest" "Suc off"]
    show ?thesis by (auto split: if_splits)
  qed
qed

lemma combine_existing_measure:
  assumes "combine_existing op src off destRange rs = (rs1, src1, off1, dest1)" "src \<noteq> []"
  shows "length src1 < length src
       \<or> (src1 = src \<and> rs1 = rs \<and> dest1 = destRange \<and> off1 = off)"
proof (cases "destRange < length rs \<and> range_includes (rs ! destRange) off")
  case True
  obtain vs s1 o1 where ci: "combine_inner op (values (rs ! destRange))
      (relative_index (rs ! destRange) off) src off = (vs, s1, o1)"
    by (cases "combine_inner op (values (rs ! destRange))
      (relative_index (rs ! destRange) off) src off") auto
  from combine_inner_length_src [OF ci assms(2)] have "length s1 < length src" .
  moreover from assms(1) True ci have "src1 = s1"
    by (auto simp: combine_existing_def Let_def split: if_splits)
  ultimately show ?thesis by simp
next
  case False
  with assms(1) show ?thesis by (auto simp: combine_existing_def)
qed

lemma combine_void_length_src:
  "combine_void op v n src = (data, src') \<Longrightarrow> length src' \<le> length src"
  by (induction op v n src arbitrary: data src' rule: combine_void.induct)
     (auto split: prod.splits)

lemma combine_void_progress:
  "combine_void op v n src = (data, src') \<Longrightarrow> src \<noteq> [] \<Longrightarrow>
     length src' < length src \<or> (n = 0 \<and> data = [] \<and> src' = src)"
proof (cases n)
  case 0
  assume "combine_void op v n src = (data, src')"
  with 0 show ?thesis by simp
next
  case (Suc m)
  assume cv: "combine_void op v n src = (data, src')" and ne: "src \<noteq> []"
  then obtain x xs where src: "src = x # xs" by (cases src) auto
  obtain d s where r: "combine_void op v m xs = (d, s)" by (cases "combine_void op v m xs") auto
  from combine_void_length_src [OF r] cv Suc src r show ?thesis by auto
qed

text \<open>
  The outer loop of \<open>combine_range\<close>, steps (1) to (3). In step (2),
  \<open>combinedData.reserve(newRangeSize)\<close> throws \<open>std::length_error\<close> when
  \<open>newRangeSize\<close> is above \<open>max_size()\<close> of the vector; that limit belongs to the
  standard library and is the argument \<open>max_size\<close>. After step (2) the source reads
  \<open>destRange->end_index()\<close>, which has no defined result if \<open>destRange\<close> is the end of
  the list.
\<close>

function combine_loop ::
  "nat \<Rightarrow> ('a \<Rightarrow> 'a \<Rightarrow> 'a) \<Rightarrow> 'a \<Rightarrow> 'a list \<Rightarrow> nat \<Rightarrow> nat \<Rightarrow> 'a datarange_t list
     \<Rightarrow> error + 'a datarange_t list" where
  "combine_loop max_size op void_value src off destRange rs =
     (if src = [] then Inr rs
      else (case combine_existing op src off destRange rs of
              (rs1, src1, off1, dest1) \<Rightarrow>
                if src1 = [] then Inr rs1
                else (let newRangeSize =
                            (if dest1 = length rs1 then length src1
                             else offset (rs1 ! dest1) - off1)
                      in if max_size < newRangeSize then Inl LengthError
                         else (case combine_void op void_value newRangeSize src1 of
                            (combinedData, src2) \<Rightarrow>
                              (let rs2 = insert_range dest1 (datarange off1 combinedData) rs1
                               in if dest1 < length rs2
                                  then combine_loop max_size op void_value src2
                                         (last_index (rs2 ! dest1)) (Suc dest1) rs2
                                  else Inl Undefined)))))"
  by pat_completeness auto
termination
proof (relation "measures [\<lambda>(n, op, v, src, off, d, rs). length src,
                            \<lambda>(n, op, v, src, off, d, rs). length rs - d]", goal_cases)
  case 1
  show ?case by simp
next
  case (2 max_size op void_value src off destRange rs rs1 y src1 ya off1 dest1 newRangeSize
      combinedData src2 rs2)
  from 2 have ce: "combine_existing op src off destRange rs = (rs1, src1, off1, dest1)"
    by simp
  from 2 have cv: "combine_void op void_value newRangeSize src1 = (combinedData, src2)"
    by simp
  note m1 = combine_existing_measure [OF ce \<open>src \<noteq> []\<close>]
  note m2 = combine_void_progress [OF cv \<open>src1 \<noteq> []\<close>]
  show ?case
  proof (cases "length src2 < length src")
    case True
    then show ?thesis by simp
  next
    case False
    with m1 m2 have same: "src1 = src" "rs1 = rs" "dest1 = destRange" "combinedData = []" "src2 = src"
      by auto
    have "insert_range destRange (datarange off1 []) rs = rs"
      by (simp add: insert_range_def range_empty_def datarange_def wrap_def)
    with 2 same show ?thesis by simp
  qed
qed

declare combine_loop.simps [simp del]

definition combine_range ::
  "nat \<Rightarrow> nat \<Rightarrow> 'a list \<Rightarrow> ('a \<Rightarrow> 'a \<Rightarrow> 'a) \<Rightarrow> 'a \<Rightarrow> 'a::zero sparse_vector
     \<Rightarrow> error + 'a sparse_vector" where
  "combine_range max_size off data op void_value s =
     (case combine_loop max_size op void_value data off
             (find_range_iter_at_or_after off (ranges s)) (ranges s) of
        Inl e \<Rightarrow> Inl e
      | Inr rs \<Rightarrow>
          merge_ranges (find_extending_range_iter (if off = 0 then 0 else off - 1) rs)
            (s\<lparr>ranges := rs\<rparr>))"

text \<open>The read-only \<open>operator[]\<close>.\<close>

definition get_at :: "'a::zero sparse_vector \<Rightarrow> nat \<Rightarrow> 'a" where
  "get_at s index =
     (let iNextRange = find_next_range_iter index (ranges s)
      in if iNextRange = 0 then 0
         else (let r = ranges s ! (iNextRange - 1)
               in if index < last_index r then range_at r index else 0))"

definition is_void :: "'a sparse_vector \<Rightarrow> nat \<Rightarrow> error + bool" where
  "is_void s index =
     (if ranges s = [] \<or> index \<ge> size_sv s then Inl OutOfRange
      else (let iNextRange = find_next_range_iter index (ranges s)
            in Inr (iNextRange = 0 \<or> last_index (ranges s ! (iNextRange - 1)) \<le> index)))"

definition set_at :: "nat \<Rightarrow> 'a \<Rightarrow> 'a::zero sparse_vector \<Rightarrow> error + 'a sparse_vector" where
  "set_at index v s =
     (let iNextRange = find_next_range_iter index (ranges s)
      in if iNextRange \<noteq> 0 \<and> index < last_index (ranges s ! (iNextRange - 1))
         then Inr (s\<lparr>ranges := (ranges s)[iNextRange - 1 :=
                      range_set (ranges s ! (iNextRange - 1)) index v]\<rparr>)
         else add_range index [v] s)"

text \<open>
  \<open>unset_at\<close>. To put a hole inside a range, the source first adds the right part as a
  new range (\<open>ranges.emplace\<close>) and then cuts the range through the reference
  \<open>range\<close> that it took before. \<open>room\<close> says whether \<open>ranges\<close> had capacity for
  one more range; without it the reference dangles.
\<close>

definition unset_at :: "bool \<Rightarrow> nat \<Rightarrow> 'a::zero sparse_vector \<Rightarrow> error + 'a sparse_vector" where
  "unset_at room index s =
     (let rs = ranges s; iNextRange = find_next_range_iter index rs
      in if iNextRange = 0 then Inr s
         else (let i = iNextRange - 1; r = rs ! i
               in if index \<ge> last_index r then Inr s
                  else if range_size r = 1 then Inr (s\<lparr>ranges := erase_at i rs\<rparr>)
                  else if index = offset r
                  then Inr (s\<lparr>ranges := rs[i := move_head (index + 1) 0 r]\<rparr>)
                  else if index = last_index r - 1
                  then Inr (s\<lparr>ranges := rs[i := move_tail index 0 r]\<rparr>)
                  else if index < last_index r
                  then (if room
                        then Inr (s\<lparr>ranges := insert_at (Suc i)
                               (datarange (index + 1)
                                  (drop (relative_index r (index + 1)) (values r)))
                               (rs[i := move_tail index 0 r])\<rparr>)
                        else Inl Undefined)
                  else Inr s))"

text \<open>\<open>resize(new_size)\<close>, and the constructor of a vector of \<open>new_size\<close> void cells.\<close>

definition resize :: "nat \<Rightarrow> 'a::zero sparse_vector \<Rightarrow> 'a sparse_vector" where
  "resize new_size s =
     (if new_size \<ge> size_sv s then s\<lparr>nominal_size := new_size\<rparr>
      else (let rs = take (find_next_range_iter new_size (ranges s)) (ranges s);
                rs' = (if rs = [] then rs
                       else if new_size = offset (last rs) then butlast rs
                       else if new_size < last_index (last rs)
                       then butlast rs @ [resize_range (new_size - offset (last rs)) 0 (last rs)]
                       else rs)
            in s\<lparr>nominal_size := new_size, ranges := rs'\<rparr>))"

definition sparse_vector_sized :: "nat \<Rightarrow> 'a::zero sparse_vector" where
  "sparse_vector_sized new_size = resize new_size sparse_vector_default"

text \<open>\<open>is_valid()\<close>: the loop over the ranges, then the check of the nominal size.\<close>

fun is_valid_loop :: "'a datarange_t list \<Rightarrow> bool" where
  "is_valid_loop [] = True"
| "is_valid_loop [r] = (\<not> range_empty r)"
| "is_valid_loop (r # n # rs) =
     (if range_empty r then False
      else if \<not> less_range r n then False
      else if \<not> separate r n then False
      else is_valid_loop (n # rs))"

definition is_valid :: "'a sparse_vector \<Rightarrow> bool" where
  "is_valid s =
     (if ranges s = [] then True
      else if \<not> is_valid_loop (ranges s) then False
      else if nominal_size s < last_index (last (ranges s)) then False
      else True)"

section \<open>Cell references\<close>

text \<open>
  \<open>const_reference\<close> and \<open>reference\<close> hold a pointer \<open>ptr\<close> to a value of the
  container, or a null pointer. A pointer into the container is the position of a range
  and the position of the value in its data.
\<close>

type_synonym reference = "(nat \<times> nat) option"

text \<open>The mutable \<open>operator[]\<close>.\<close>

definition at_mutable :: "'a sparse_vector \<Rightarrow> nat \<Rightarrow> reference" where
  "at_mutable s index =
     (let iNextRange = find_next_range_iter index (ranges s)
      in if iNextRange = 0 then None
         else (let r = ranges s ! (iNextRange - 1)
               in if index < last_index r
                  then Some (iNextRange - 1, relative_index r index) else None))"

text \<open>
  \<open>const_reference::operator value_type()\<close> (and \<open>operator const value_type&()\<close>):
  \<open>ptr ? *ptr : value_zero\<close>.
\<close>

definition reference_value :: "'a::zero sparse_vector \<Rightarrow> reference \<Rightarrow> 'a" where
  "reference_value s ptr =
     (case ptr of None \<Rightarrow> 0 | Some (i, j) \<Rightarrow> values (ranges s ! i) ! j)"

text \<open>
  \<open>reference::operator=(value_type)\<close> and \<open>reference::operator value_type&()\<close>
  dereference \<open>ptr\<close> without a test.
\<close>

definition reference_assign :: "'a sparse_vector \<Rightarrow> reference \<Rightarrow> 'a \<Rightarrow> error + 'a sparse_vector" where
  "reference_assign s ptr v =
     (case ptr of
        None \<Rightarrow> Inl Undefined
      | Some (i, j) \<Rightarrow>
          Inr (s\<lparr>ranges := (ranges s)[i := (ranges s ! i)\<lparr>values := (values (ranges s ! i))[j := v]\<rparr>]\<rparr>))"

definition reference_lvalue :: "reference \<Rightarrow> error + nat \<times> nat" where
  "reference_lvalue ptr = (case ptr of None \<Rightarrow> Inl Undefined | Some p \<Rightarrow> Inr p)"

section \<open>\<open>const_iterator\<close>\<close>

text \<open>
  The iterator holds a pointer to its container (null for a default-constructed one), the
  index, and the position \<open>currentRange\<close> in the ranges of the container. The container
  is not changed while an iterator on it is in use, so the pointer is modelled by the
  container itself.
\<close>

record 'a const_iterator =
  cont :: "'a sparse_vector option"
  index :: nat
  currentRange :: nat

definition refresh_state :: "'a const_iterator \<Rightarrow> 'a const_iterator" where
  "refresh_state it =
     (case cont it of
        Some c \<Rightarrow>
          (let cr = find_next_range_iter (index it) (ranges c)
           in if cr \<noteq> 0 \<and> last_index (ranges c ! (cr - 1)) > index it
              then it\<lparr>currentRange := cr - 1\<rparr> else it\<lparr>currentRange := cr\<rparr>)
      | None \<Rightarrow> it\<lparr>currentRange := 0\<rparr>)"

definition const_iterator_at :: "'a sparse_vector \<Rightarrow> nat \<Rightarrow> 'a const_iterator" where
  "const_iterator_at c off =
     refresh_state \<lparr>cont = Some c, index = min off (size_sv c), currentRange = 0\<rparr>"

definition begin_sv :: "'a sparse_vector \<Rightarrow> 'a const_iterator" where
  "begin_sv c = \<lparr>cont = Some c, index = 0, currentRange = 0\<rparr>"

definition end_sv :: "'a sparse_vector \<Rightarrow> 'a const_iterator" where
  "end_sv c = \<lparr>cont = Some c, index = size_sv c, currentRange = length (ranges c)\<rparr>"

text \<open>\<open>operator==\<close> compares the container and the index.\<close>

definition iterator_eq :: "'a const_iterator \<Rightarrow> 'a const_iterator \<Rightarrow> bool" where
  "iterator_eq a b = (cont a = cont b \<and> index a = index b)"

definition increment :: "'a const_iterator \<Rightarrow> 'a const_iterator" where
  "increment it =
     (case cont it of
        None \<Rightarrow> it
      | Some c \<Rightarrow>
          if index it \<ge> size_sv c then it
          else (let it' = it\<lparr>index := index it + 1\<rparr>
                in if currentRange it' \<noteq> length (ranges c)
                      \<and> last_index (ranges c ! currentRange it') \<le> index it'
                   then it'\<lparr>currentRange := currentRange it' + 1\<rparr> else it'))"

definition dereference :: "'a::zero const_iterator \<Rightarrow> error + 'a" where
  "dereference it =
     (case cont it of
        None \<Rightarrow> Inl OutOfRange
      | Some c \<Rightarrow>
          Inr (if index it \<ge> size_sv c then 0
               else if currentRange it = length (ranges c) then 0
               else if index it < offset (ranges c ! currentRange it) then 0
               else range_at (ranges c ! currentRange it) (index it)))"

text \<open>
  \<open>operator+=\<close>: \<open>delta\<close> is a signed \<open>difference_type\<close> added to the unsigned
  index, so the sum is taken modulo \<open>2^64\<close>. Without a container,
  \<open>cont->ranges\<close> has no defined result.
\<close>

definition plus_assign :: "int \<Rightarrow> 'a const_iterator \<Rightarrow> error + 'a const_iterator" where
  "plus_assign delta it =
     (if delta = 1 then Inr (increment it)
      else (let it' = it\<lparr>index := nat ((int (index it) + delta) mod 2 ^ 64)\<rparr>
            in case cont it' of
                 None \<Rightarrow> Inl Undefined
               | Some c \<Rightarrow>
                   if currentRange it' = length (ranges c)
                      \<or> \<not> range_includes (ranges c ! currentRange it') (index it')
                   then Inr (refresh_state it') else Inr it'))"

text \<open>A sequence of steps of \<open>operator++\<close> and \<open>operator+=\<close> on an iterator.\<close>

datatype step = Increment | PlusAssign int

fun advance :: "step list \<Rightarrow> 'a const_iterator \<Rightarrow> error + 'a const_iterator" where
  "advance [] it = Inr it"
| "advance (Increment # steps) it = advance steps (increment it)"
| "advance (PlusAssign delta # steps) it =
     (case plus_assign delta it of Inl e \<Rightarrow> Inl e | Inr it' \<Rightarrow> advance steps it')"

section \<open>The canonical form, for the proofs\<close>

text \<open>
  The following are not functions of the source. \<open>ordered\<close> is the order that
  \<open>is_valid()\<close> checks, without the gap: every range is non-empty and ends before or
  where the next one starts. \<open>data_fits\<close> is the class invariant of \<open>datarange_t\<close>,
  which \<open>is_valid()\<close> does not look at: the vector \<open>values\<close> has the size of the
  range, and the end of the range is a value of \<open>size_type\<close> (\<open>range_fits\<close>).
  \<open>first_after\<close> is the position of the first range that ends after an index,
  \<open>positioned\<close> says that an iterator caches that position, and \<open>lookup\<close> reads a
  cell from the first range of the list that includes it.
\<close>

definition ordered :: "'a datarange_t list \<Rightarrow> bool" where
  "ordered rs = ((\<forall>r \<in> set rs. offset r < last_index r)
                 \<and> sorted_wrt (\<lambda>a b. last_index a \<le> offset b) rs)"

fun first_after :: "nat \<Rightarrow> 'a datarange_t list \<Rightarrow> nat" where
  "first_after k [] = 0"
| "first_after k (r # rs) = (if last_index r \<le> k then Suc (first_after k rs) else 0)"

definition range_fits :: "'a datarange_t \<Rightarrow> bool" where
  "range_fits r = (length (values r) = range_size r \<and> last_index r < 2 ^ 64)"

definition data_fits :: "'a sparse_vector \<Rightarrow> bool" where
  "data_fits s = list_all range_fits (ranges s)"

text \<open>
  \<open>absorb r post\<close> is what the loop of \<open>merge_ranges\<close> makes of the range \<open>r\<close>
  and the ranges \<open>post\<close> behind it.
\<close>

fun absorb :: "'a::zero datarange_t \<Rightarrow> 'a datarange_t list \<Rightarrow> 'a datarange_t list" where
  "absorb r [] = [r]"
| "absorb r (n # post) =
     (if \<not> borders r (offset n) then r # n # post
      else absorb (if last_index n > last_index r
                   then extend_range (last_index r)
                          (drop (relative_index n (last_index r)) (values n)) r
                   else r) post)"


definition positioned :: "'a sparse_vector \<Rightarrow> 'a const_iterator \<Rightarrow> bool" where
  "positioned v it = (cont it = Some v \<and> currentRange it = first_after (index it) (ranges v))"

fun lookup :: "'a datarange_t list \<Rightarrow> nat \<Rightarrow> 'a option" where
  "lookup [] k = None"
| "lookup (r # rs) k = (if range_includes r k then Some (range_at r k) else lookup rs k)"

text \<open>
  \<open>separated\<close> is the order with the gap that \<open>is_valid()\<close> checks.
  \<open>combined op v rs off src\<close> are the cells that \<open>combine_range\<close> is to leave:
  inside \<open>[off, off + |src|)\<close> the operation applied to the old cell, or to \<open>v\<close>
  where the cell was void, and to the input; outside, the old cell.
\<close>

definition separated :: "'a datarange_t list \<Rightarrow> bool" where
  "separated rs = sorted_wrt (\<lambda>a b. last_index a < offset b) rs"

definition cell_or :: "'a \<Rightarrow> 'a option \<Rightarrow> 'a" where
  "cell_or v c = (case c of None \<Rightarrow> v | Some x \<Rightarrow> x)"

definition combined ::
  "('a \<Rightarrow> 'a \<Rightarrow> 'a) \<Rightarrow> 'a \<Rightarrow> 'a datarange_t list \<Rightarrow> nat \<Rightarrow> 'a list \<Rightarrow> nat \<Rightarrow> 'a option" where
  "combined op v rs off src k =
     (if off \<le> k \<and> k < off + length src
      then Some (op (cell_or v (lookup rs k)) (src ! (k - off)))
      else lookup rs k)"

section \<open>Properties of \<open>ParticleAncestryMap\<close>\<close>

lemma GetAncestor_no_descendant:
  "(\<forall>e \<in> set m. t \<notin> snd e) \<Longrightarrow> GetAncestor m t = - INT_MAX"
  by (induction m) auto

lemma GetAncestor_is_key:
  "e \<in> set m \<Longrightarrow> t \<in> snd e \<Longrightarrow> GetAncestor m t \<in> fst ` set m"
  by (induction m) (auto split: if_splits)

text \<open>
  Claim C8. \<open>Exists(trackid)\<close> is true exactly when \<open>trackid\<close> differs from \<open>-INT_MAX\<close>.
  When no ancestor key of the map is \<open>-INT_MAX\<close>, \<open>GetAncestor(trackid)\<close> returns
  \<open>-INT_MAX\<close> exactly when no descendant set of the map contains \<open>trackid\<close>, and then
  \<open>Exists(GetAncestor(trackid))\<close> is false.
\<close>

theorem C8_exists_get_ancestor:
  assumes "\<forall>e \<in> set m. fst e \<noteq> - INT_MAX"
  shows "(Exists t \<longleftrightarrow> t \<noteq> - INT_MAX)
       \<and> (GetAncestor m t = - INT_MAX \<longleftrightarrow> (\<forall>e \<in> set m. t \<notin> snd e))
       \<and> ((\<forall>e \<in> set m. t \<notin> snd e) \<longrightarrow> \<not> Exists (GetAncestor m t))"
proof -
  have sentinel: "\<forall>e \<in> set m. t \<notin> snd e" if eq: "GetAncestor m t = - INT_MAX"
  proof (rule ccontr)
    assume "\<not> (\<forall>e \<in> set m. t \<notin> snd e)"
    then obtain e where "e \<in> set m" "t \<in> snd e" by blast
    then have "GetAncestor m t \<in> fst ` set m" by (rule GetAncestor_is_key)
    with assms eq show False by auto
  qed
  show ?thesis
    using sentinel GetAncestor_no_descendant [of m t] by (auto simp: Exists_def)
qed

theorem C8_exists_get_ancestor_witness:
  "Exists 7 \<and> \<not> Exists (- INT_MAX)
   \<and> GetAncestor [(1, {2, 3}), (4, {5})] 5 = 4
   \<and> GetAncestor [(1, {2, 3}), (4, {5})] 9 = - INT_MAX
   \<and> \<not> Exists (GetAncestor [(1, {2, 3}), (4, {5})] 9)"
  using C8_exists_get_ancestor [of "[(1, {2, 3}), (4, {5})]" 9]
    C8_exists_get_ancestor [of "[(1, {2, 3}), (4, {5})]" 7]
  by (simp add: INT_MAX_def Exists_def)

section \<open>The binary search\<close>

lemma upper_bound_le: "upper_bound k rs \<le> length rs"
  by (induction rs) auto

lemma upper_bound_before: "j < upper_bound k rs \<Longrightarrow> offset (rs ! j) \<le> k"
proof (induction rs arbitrary: j)
  case Nil
  then show ?case by simp
next
  case (Cons r rs)
  then show ?case by (cases j) (auto split: if_splits)
qed

lemma upper_bound_at: "upper_bound k rs < length rs \<Longrightarrow> k < offset (rs ! upper_bound k rs)"
  by (induction rs) auto

section \<open>Ordered ranges\<close>

lemma ordered_Cons:
  "ordered (r # rs) = (offset r < last_index r \<and> (\<forall>x \<in> set rs. last_index r \<le> offset x) \<and> ordered rs)"
  by (auto simp: ordered_def)

lemma ordered_Nil [simp]: "ordered []"
  by (simp add: ordered_def)

lemma is_valid_loop_ordered: "is_valid_loop rs \<Longrightarrow> ordered rs"
proof (induction rs rule: is_valid_loop.induct)
  case 1
  then show ?case by simp
next
  case (2 r)
  then show ?case by (simp add: ordered_Cons range_empty_def)
next
  case (3 r n rs)
  from "3.prems" have r: "offset r < last_index r" and ln: "offset r < offset n"
    and sep: "separate r n" and rest: "is_valid_loop (n # rs)"
    by (auto simp: range_empty_def less_range_def split: if_splits)
  from "3.IH" "3.prems" rest have on: "ordered (n # rs)"
    by (auto simp: range_empty_def less_range_def split: if_splits)
  from on have n: "offset n < last_index n" by (simp add: ordered_Cons)
  with sep ln have gap: "last_index r < offset n" by (auto simp: separate_def)
  have "last_index r \<le> offset x" if "x \<in> set (n # rs)" for x
    using that on gap n by (auto simp: ordered_Cons)
  with r on show ?case by (simp add: ordered_Cons)
qed

lemma ordered_last_max:
  "ordered rs \<Longrightarrow> r \<in> set rs \<Longrightarrow> last_index r \<le> last_index (last rs)"
proof (induction rs)
  case Nil
  then show ?case by simp
next
  case (Cons a rs)
  show ?case
  proof (cases "rs = []")
    case True
    with Cons.prems show ?thesis by simp
  next
    case False
    then have l: "last rs \<in> set rs" by simp
    from Cons.prems have o: "ordered rs" and a: "\<forall>x \<in> set rs. last_index a \<le> offset x"
      and pos: "\<forall>x \<in> set rs. offset x < last_index x"
      by (auto simp: ordered_Cons ordered_def)
    show ?thesis
    proof (cases "r = a")
      case True
      with a pos l False show ?thesis by (auto simp: less_imp_le dest!: bspec [where x="last rs"])
    next
      case False
      with Cons.prems have "r \<in> set rs" by simp
      from Cons.IH [OF o this] \<open>rs \<noteq> []\<close> show ?thesis by simp
    qed
  qed
qed

lemma is_valid_ordered: "is_valid s \<Longrightarrow> ordered (ranges s)"
  by (cases "ranges s = []") (auto simp: is_valid_def is_valid_loop_ordered split: if_splits)

lemma is_valid_bound: "is_valid s \<Longrightarrow> r \<in> set (ranges s) \<Longrightarrow> last_index r \<le> size_sv s"
proof -
  assume v: "is_valid s" and r: "r \<in> set (ranges s)"
  then have ne: "ranges s \<noteq> []" by auto
  from v ne have "last_index (last (ranges s)) \<le> nominal_size s"
    by (auto simp: is_valid_def split: if_splits)
  with ordered_last_max [OF is_valid_ordered [OF v] r] show ?thesis by (simp add: size_sv_def)
qed

lemma first_after_le: "first_after k rs \<le> length rs"
  by (induction rs) auto

lemma first_after_before: "j < first_after k rs \<Longrightarrow> last_index (rs ! j) \<le> k"
proof (induction rs arbitrary: j)
  case Nil
  then show ?case by simp
next
  case (Cons r rs)
  then show ?case by (cases j) (auto split: if_splits)
qed

lemma first_after_at: "first_after k rs < length rs \<Longrightarrow> k < last_index (rs ! first_after k rs)"
  by (induction rs) auto

lemma first_after_unique:
  "c \<le> length rs \<Longrightarrow> (\<And>j. j < c \<Longrightarrow> last_index (rs ! j) \<le> k)
     \<Longrightarrow> (c < length rs \<Longrightarrow> k < last_index (rs ! c)) \<Longrightarrow> first_after k rs = c"
proof (induction rs arbitrary: c)
  case Nil
  then show ?case by simp
next
  case (Cons r rs)
  show ?case
  proof (cases c)
    case 0
    with Cons.prems(3) show ?thesis by auto
  next
    case (Suc d)
    with Cons.prems(2) [of 0] have r: "last_index r \<le> k" by simp
    have "first_after k rs = d"
    proof (rule Cons.IH)
      show "d \<le> length rs" using Cons.prems(1) Suc by simp
      show "last_index (rs ! j) \<le> k" if "j < d" for j
        using Cons.prems(2) [of "Suc j"] that Suc by simp
      show "k < last_index (rs ! d)" if "d < length rs"
        using Cons.prems(3) that Suc by simp
    qed
    with r Suc show ?thesis by simp
  qed
qed

lemma ordered_nth_pos: "ordered rs \<Longrightarrow> j < length rs \<Longrightarrow> offset (rs ! j) < last_index (rs ! j)"
  by (simp add: ordered_def)

lemma ordered_nth_less:
  "ordered rs \<Longrightarrow> i < j \<Longrightarrow> j < length rs \<Longrightarrow> last_index (rs ! i) \<le> offset (rs ! j)"
  by (simp add: ordered_def sorted_wrt_iff_nth_less)

section \<open>Iterators\<close>

text \<open>What \<open>refresh_state\<close> computes is the first range that ends after the index.\<close>

lemma refresh_first_after:
  assumes "ordered rs"
  shows "(let cr = upper_bound k rs
          in if cr \<noteq> 0 \<and> last_index (rs ! (cr - 1)) > k then cr - 1 else cr) = first_after k rs"
proof -
  let ?u = "upper_bound k rs"
  have ule: "?u \<le> length rs" by (rule upper_bound_le)
  have before: "last_index (rs ! j) \<le> k" if "Suc j < ?u" for j
  proof -
    from that ule have "last_index (rs ! j) \<le> offset (rs ! Suc j)"
      by (intro ordered_nth_less [OF assms]) auto
    also have "\<dots> \<le> k" using that by (rule upper_bound_before)
    finally show ?thesis .
  qed
  show ?thesis
  proof (cases "?u \<noteq> 0 \<and> last_index (rs ! (?u - 1)) > k")
    case True
    have "first_after k rs = ?u - 1"
    proof (rule first_after_unique)
      show "?u - 1 \<le> length rs" using ule by simp
      show "last_index (rs ! j) \<le> k" if "j < ?u - 1" for j using before [of j] that by simp
      show "k < last_index (rs ! (?u - 1))" using True by simp
    qed
    with True show ?thesis by (simp add: Let_def)
  next
    case False
    have "first_after k rs = ?u"
    proof (rule first_after_unique)
      show "?u \<le> length rs" by (rule ule)
      show "last_index (rs ! j) \<le> k" if "j < ?u" for j
      proof (cases "Suc j < ?u")
        case True
        then show ?thesis by (rule before)
      next
        case F: False
        with that have "j = ?u - 1" "?u \<noteq> 0" by auto
        with False show ?thesis by auto
      qed
      show "k < last_index (rs ! ?u)" if "?u < length rs"
      proof -
        have "k < offset (rs ! ?u)" using that by (rule upper_bound_at)
        also have "\<dots> < last_index (rs ! ?u)" using that by (rule ordered_nth_pos [OF assms])
        finally show ?thesis .
      qed
    qed
    with False show ?thesis by (auto simp: Let_def)
  qed
qed

lemma refresh_positioned:
  "ordered (ranges v) \<Longrightarrow> cont it = Some v \<Longrightarrow> positioned v (refresh_state it)"
  using refresh_first_after [of "ranges v" "index it"]
  by (auto simp: positioned_def refresh_state_def find_next_range_iter_def Let_def split: if_splits)

lemma begin_positioned: "ordered (ranges v) \<Longrightarrow> positioned v (begin_sv v)"
  by (cases "ranges v") (auto simp: positioned_def begin_sv_def ordered_Cons)

lemma increment_positioned:
  assumes o: "ordered (ranges v)" and p: "positioned v it"
  shows "positioned v (increment it)"
proof (cases "index it \<ge> size_sv v")
  case True
  with p show ?thesis by (simp add: increment_def positioned_def)
next
  case False
  let ?rs = "ranges v" and ?k = "index it" and ?c = "currentRange it"
  from p have c: "?c = first_after ?k ?rs" and co: "cont it = Some v"
    by (simp_all add: positioned_def)
  have cle: "?c \<le> length ?rs" unfolding c by (rule first_after_le)
  show ?thesis
  proof (cases "?c \<noteq> length ?rs \<and> last_index (?rs ! ?c) \<le> Suc ?k")
    case True
    with cle have clt: "?c < length ?rs" by simp
    have "first_after (Suc ?k) ?rs = Suc ?c"
    proof (rule first_after_unique)
      show "Suc ?c \<le> length ?rs" using clt by simp
      show "last_index (?rs ! j) \<le> Suc ?k" if "j < Suc ?c" for j
      proof (cases "j = ?c")
        case True
        with \<open>?c \<noteq> length ?rs \<and> last_index (?rs ! ?c) \<le> Suc ?k\<close> show ?thesis by simp
      next
        case False
        with that have "j < first_after ?k ?rs" using c by simp
        from first_after_before [OF this] show ?thesis by simp
      qed
      show "Suc ?k < last_index (?rs ! Suc ?c)" if "Suc ?c < length ?rs"
      proof -
        have "?k < last_index (?rs ! ?c)" using first_after_at [of ?k ?rs] clt c by simp
        then have "Suc ?k \<le> last_index (?rs ! ?c)" by simp
        also have "\<dots> \<le> offset (?rs ! Suc ?c)" using that by (intro ordered_nth_less [OF o]) auto
        also have "\<dots> < last_index (?rs ! Suc ?c)" using that by (rule ordered_nth_pos [OF o])
        finally show ?thesis .
      qed
    qed
    with True False co show ?thesis by (simp add: increment_def positioned_def Let_def)
  next
    case F: False
    have "first_after (Suc ?k) ?rs = ?c"
    proof (rule first_after_unique)
      show "?c \<le> length ?rs" by (rule cle)
      show "last_index (?rs ! j) \<le> Suc ?k" if "j < ?c" for j
        using first_after_before [of j ?k ?rs] that c by simp
      show "Suc ?k < last_index (?rs ! ?c)" if "?c < length ?rs"
        using F that by simp
    qed
    with F False co show ?thesis by (auto simp: increment_def positioned_def Let_def)
  qed
qed

lemma includes_first_after:
  assumes o: "ordered rs" and c: "c < length rs" and i: "range_includes (rs ! c) k"
  shows "first_after k rs = c"
proof (rule first_after_unique)
  show "c \<le> length rs" using c by simp
  show "last_index (rs ! j) \<le> k" if "j < c" for j
  proof -
    have "last_index (rs ! j) \<le> offset (rs ! c)" using that c by (intro ordered_nth_less [OF o])
    with i show ?thesis by (simp add: range_includes_def)
  qed
  show "k < last_index (rs ! c)" using i by (simp add: range_includes_def)
qed

lemma plus_assign_positioned:
  assumes o: "ordered (ranges v)" and p: "positioned v it"
  shows "\<exists>it'. plus_assign delta it = Inr it' \<and> positioned v it'"
proof (cases "delta = 1")
  case True
  with increment_positioned [OF o p] show ?thesis by (simp add: plus_assign_def)
next
  case False
  let ?it = "it\<lparr>index := nat ((int (index it) + delta) mod 2 ^ 64)\<rparr>"
  from p have co: "cont ?it = Some v" by (simp add: positioned_def)
  show ?thesis
  proof (cases "currentRange ?it = length (ranges v)
      \<or> \<not> range_includes (ranges v ! currentRange ?it) (index ?it)")
    case True
    with False co refresh_positioned [OF o co] show ?thesis
      by (simp add: plus_assign_def Let_def)
  next
    case F: False
    from p have "currentRange it \<le> length (ranges v)"
      by (simp add: positioned_def first_after_le)
    with F have "currentRange ?it < length (ranges v)" by simp
    from includes_first_after [OF o this] F have "positioned v ?it"
      using co by (simp add: positioned_def)
    with False F co show ?thesis by (simp add: plus_assign_def Let_def)
  qed
qed

lemma advance_positioned:
  "ordered (ranges v) \<Longrightarrow> positioned v it \<Longrightarrow> \<exists>it'. advance steps it = Inr it' \<and> positioned v it'"
proof (induction steps arbitrary: it)
  case Nil
  then show ?case by simp
next
  case (Cons st steps)
  show ?case
  proof (cases st)
    case Increment
    with Cons.IH [OF Cons.prems(1) increment_positioned [OF Cons.prems]] show ?thesis by simp
  next
    case (PlusAssign delta)
    from plus_assign_positioned [OF Cons.prems, of delta]
    obtain it' where "plus_assign delta it = Inr it'" "positioned v it'" by blast
    with Cons.IH [OF Cons.prems(1), of it'] PlusAssign show ?thesis by simp
  qed
qed

lemma dereference_positioned:
  assumes v: "is_valid v" and p: "positioned v it"
  shows "dereference it = Inr (get_at v (index it))"
proof -
  let ?rs = "ranges v" and ?k = "index it"
  let ?u = "upper_bound ?k ?rs"
  note o = is_valid_ordered [OF v]
  from p have co: "cont it = Some v" by (simp add: positioned_def)
  from p refresh_first_after [OF o, of ?k]
  have cr: "currentRange it = (if ?u \<noteq> 0 \<and> last_index (?rs ! (?u - 1)) > ?k then ?u - 1 else ?u)"
    by (simp add: positioned_def Let_def)
  have ule: "?u \<le> length ?rs" by (rule upper_bound_le)
  show ?thesis
  proof (cases "?u \<noteq> 0 \<and> last_index (?rs ! (?u - 1)) > ?k")
    case True
    then have "?u \<noteq> 0" by simp
    with ule have "?u - 1 < length ?rs" by arith
    then have in_list: "?rs ! (?u - 1) \<in> set ?rs" by simp
    from is_valid_bound [OF v in_list] True have lt: "?k < size_sv v" by simp
    have "offset (?rs ! (?u - 1)) \<le> ?k" using True by (intro upper_bound_before) simp
    with True cr co lt ule show ?thesis
      by (auto simp: dereference_def get_at_def find_next_range_iter_def Let_def)
  next
    case False
    then have g: "get_at v ?k = 0"
      by (auto simp: get_at_def find_next_range_iter_def Let_def)
    from False cr have c: "currentRange it = ?u" by auto
    have "?k < offset (?rs ! ?u)" if "?u \<noteq> length ?rs"
      using that ule by (intro upper_bound_at) simp
    with g c co show ?thesis by (auto simp: dereference_def)
  qed
qed

lemma get_at_lookup_aux:
  assumes "ordered rs"
  shows "(let i = upper_bound k rs in
            if i = 0 then None
            else if k < last_index (rs ! (i - 1)) then Some (range_at (rs ! (i - 1)) k) else None)
         = lookup rs k"
  using assms
proof (induction rs)
  case Nil
  then show ?case by simp
next
  case (Cons r rs)
  from Cons.prems have o: "ordered rs" and rr: "offset r < last_index r"
    and sep: "\<forall>x \<in> set rs. last_index r \<le> offset x"
    by (simp_all add: ordered_Cons)
  note IH = Cons.IH [OF o]
  show ?case
  proof (cases "k < offset r")
    case True
    have "\<not> range_includes x k" if "x \<in> set rs" for x
      using sep that True rr by (auto simp: range_includes_def)
    then have "lookup rs k = None" by (induction rs) auto
    with True show ?thesis by (simp add: range_includes_def)
  next
    case False
    show ?thesis
    proof (cases "upper_bound k rs = 0")
      case True
      with IH have "lookup rs k = None" by simp
      with True False show ?thesis by (simp add: range_includes_def)
    next
      case F: False
      then have "rs \<noteq> []" by auto
      then have "offset (rs ! 0) \<le> k" using F by (intro upper_bound_before) simp
      moreover have "rs ! 0 \<in> set rs" using \<open>rs \<noteq> []\<close> by simp
      ultimately have "last_index r \<le> k" using sep by force
      with IH F False show ?thesis by (auto simp: range_includes_def Let_def nth_Cons')
    qed
  qed
qed

lemma get_at_lookup:
  "ordered (ranges s) \<Longrightarrow> get_at s k = (case lookup (ranges s) k of None \<Rightarrow> 0 | Some x \<Rightarrow> x)"
  by (simp add: get_at_def find_next_range_iter_def Let_def get_at_lookup_aux [symmetric])

text \<open>
  Claim C2. On a valid vector \<open>v\<close> and for an index \<open>i\<close> up to its size: the
  iterator \<open>const_iterator(v, i)\<close> dereferences to \<open>v[i]\<close>; any sequence of
  \<open>operator++\<close> and \<open>operator+=\<close> steps from \<open>begin()\<close> gives an iterator, and
  if that iterator is at index \<open>i\<close> it dereferences to \<open>v[i]\<close>; and \<open>v[i]\<close> is
  the element stored in the range that includes \<open>i\<close>, or zero if there is none.
\<close>

theorem C2_iterator_reads_like_subscript:
  assumes "is_valid v" "i \<le> size_sv v"
  shows "dereference (const_iterator_at v i) = Inr (get_at v i)
       \<and> (\<exists>it. advance steps (begin_sv v) = Inr it
              \<and> (index it = i \<longrightarrow> dereference it = Inr (get_at v i)))
       \<and> get_at v i = (case find (\<lambda>r. range_includes r i) (ranges v) of
                          None \<Rightarrow> 0 | Some r \<Rightarrow> range_at r i)"
proof -
  note o = is_valid_ordered [OF assms(1)]
  have "positioned v (const_iterator_at v i)"
    unfolding const_iterator_at_def by (rule refresh_positioned [OF o]) simp
  from dereference_positioned [OF assms(1) this] assms(2)
  have a: "dereference (const_iterator_at v i) = Inr (get_at v i)"
    by (simp add: const_iterator_at_def refresh_state_def Let_def min_def)
  from advance_positioned [OF o begin_positioned [OF o], of steps]
  obtain it where it: "advance steps (begin_sv v) = Inr it" "positioned v it" by blast
  from dereference_positioned [OF assms(1) it(2)]
  have b: "\<exists>it. advance steps (begin_sv v) = Inr it
              \<and> (index it = i \<longrightarrow> dereference it = Inr (get_at v i))"
    using it(1) by auto
  have "lookup rs i = (case find (\<lambda>r. range_includes r i) rs of
                          None \<Rightarrow> None | Some r \<Rightarrow> Some (range_at r i))" for rs :: "'a datarange_t list"
    by (induction rs) auto
  with get_at_lookup [OF o, of i]
  have c: "get_at v i = (case find (\<lambda>r. range_includes r i) (ranges v) of
                          None \<Rightarrow> 0 | Some r \<Rightarrow> range_at r i)"
    by (auto split: option.splits)
  from a b c show ?thesis by blast
qed


theorem C2_iterator_reads_like_subscript_witness:
  "dereference (const_iterator_at
       \<lparr>nominal_size = 10, ranges = [\<lparr>offset = 3, last_index = 6, values = [1, 2, 3 :: int]\<rparr>]\<rparr> 4)
     = Inr 2
   \<and> advance [Increment, PlusAssign 4, PlusAssign (- 1)]
        (begin_sv \<lparr>nominal_size = 10,
                    ranges = [\<lparr>offset = 3, last_index = 6, values = [1, 2, 3 :: int]\<rparr>]\<rparr>)
     = Inr \<lparr>cont = Some \<lparr>nominal_size = 10,
                    ranges = [\<lparr>offset = 3, last_index = 6, values = [1, 2, 3 :: int]\<rparr>]\<rparr>,
            index = 4, currentRange = 0\<rparr>
   \<and> dereference \<lparr>cont = Some \<lparr>nominal_size = 10,
                    ranges = [\<lparr>offset = 3, last_index = 6, values = [1, 2, 3 :: int]\<rparr>]\<rparr>,
            index = 4, currentRange = 0\<rparr> = Inr 2"
proof -
  let ?v = "\<lparr>nominal_size = 10,
             ranges = [\<lparr>offset = 3, last_index = 6, values = [1, 2, 3 :: int]\<rparr>]\<rparr>"
  have v: "is_valid ?v" by code_simp
  have i: "4 \<le> size_sv ?v" by code_simp
  have g: "get_at ?v 4 = 2" by code_simp
  have a: "advance [Increment, PlusAssign 4, PlusAssign (- 1)] (begin_sv ?v)
             = Inr \<lparr>cont = Some ?v, index = 4, currentRange = 0\<rparr>" by code_simp
  from C2_iterator_reads_like_subscript [OF v i, of "[Increment, PlusAssign 4, PlusAssign (- 1)]"]
  show ?thesis unfolding g a by simp
qed

section \<open>Extending and merging ranges\<close>

lemma ordered_append:
  "ordered (xs @ ys) = (ordered xs \<and> ordered ys \<and> (\<forall>x \<in> set xs. \<forall>y \<in> set ys. last_index x \<le> offset y))"
  by (auto simp: ordered_def sorted_wrt_append)

lemma upper_bound_take: "p \<in> set (take (upper_bound k rs) rs) \<Longrightarrow> offset p \<le> k"
  by (induction rs) (auto split: if_splits)

lemma upper_bound_drop: "ordered rs \<Longrightarrow> p \<in> set (drop (upper_bound k rs) rs) \<Longrightarrow> k < offset p"
proof (induction rs)
  case Nil
  then show ?case by simp
next
  case (Cons r rs)
  show ?case
  proof (cases "k < offset r")
    case True
    with Cons.prems show ?thesis by (force simp: ordered_Cons)
  next
    case False
    with Cons show ?thesis by (simp add: ordered_Cons)
  qed
qed

lemma copy_to_length [simp]: "length (copy_to ys d xs) = length xs"
  by (induction ys arbitrary: d xs) auto

lemma copy_to_nth:
  "j < length xs \<Longrightarrow>
     copy_to ys d xs ! j = (if d \<le> j \<and> j < d + length ys then ys ! (j - d) else xs ! j)"
proof (induction ys arbitrary: d xs)
  case Nil
  then show ?case by auto
next
  case (Cons y ys)
  from Cons.prems have "j < length (xs[d := y])" by simp
  from Cons.IH [OF this, of "Suc d"] Cons.prems show ?case
    by (auto simp: nth_Cons' nth_list_update)
qed

lemma vector_resize_length [simp]: "length (vector_resize n v xs) = n"
  by (simp add: vector_resize_def)

lemma vector_resize_nth: "j < length xs \<Longrightarrow> j < n \<Longrightarrow> vector_resize n v xs ! j = xs ! j"
  by (simp add: vector_resize_def nth_append)

lemma wrap_id: "n < 2 ^ 64 \<Longrightarrow> wrap n = n"
  by (simp add: wrap_def)

lemma wrap_less [simp]: "wrap n < 2 ^ 64"
  by (simp add: wrap_def)

lemma extend_range_offset [simp]: "offset (extend_range i d r) = offset r"
  by (simp add: extend_range_def Let_def)

text \<open>Where nothing wraps, \<open>extend\<close> is what it is over the natural numbers.\<close>

lemma extend_range_no_wrap:
  assumes "offset r \<le> i" "offset r \<le> last_index r" "i + length d < 2 ^ 64"
    "last_index r < 2 ^ 64"
  shows "extend_range i d r
           = r\<lparr>last_index := max (i + length d) (last_index r),
                values := copy_to d (i - offset r)
                  (vector_resize (max (i + length d) (last_index r) - offset r) 0 (values r))\<rparr>"
proof -
  have "relative_index r i + length d < 2 ^ 64"
    using assms(1,3) by (simp add: relative_index_def)
  then have w1: "wrap (relative_index r i + length d) = i - offset r + length d"
    by (simp add: wrap_id relative_index_def)
  have n: "max (i - offset r + length d) (range_size r)
      = max (i + length d) (last_index r) - offset r"
    using assms(1,2) by (auto simp: range_size_def max_def)
  have "offset r + (max (i + length d) (last_index r) - offset r)
      = max (i + length d) (last_index r)"
    using assms(1,2) by (auto simp: max_def)
  moreover have "max (i + length d) (last_index r) < 2 ^ 64" using assms(3,4) by simp
  ultimately have w2: "wrap (offset r + (max (i + length d) (last_index r) - offset r))
      = max (i + length d) (last_index r)"
    by (simp add: wrap_id)
  show ?thesis
    unfolding extend_range_def Let_def w1 n w2 by (simp add: relative_index_def)
qed

lemma extend_range_last:
  "offset r \<le> i \<Longrightarrow> offset r \<le> last_index r \<Longrightarrow> i + length d < 2 ^ 64 \<Longrightarrow>
   last_index r < 2 ^ 64 \<Longrightarrow>
     last_index (extend_range i d r) = max (i + length d) (last_index r)"
  by (simp add: extend_range_no_wrap)

lemma extend_range_fits:
  assumes "range_fits r" "offset r \<le> i" "offset r \<le> last_index r" "i + length d < 2 ^ 64"
  shows "range_fits (extend_range i d r)"
proof -
  from assms(1) have l: "last_index r < 2 ^ 64" by (simp add: range_fits_def)
  show ?thesis
    unfolding extend_range_no_wrap [OF assms(2,3,4) l]
    using assms(4) l by (simp add: range_fits_def range_size_def)
qed

lemma extend_range_at:
  assumes "range_fits r" "offset r \<le> i" "i \<le> last_index r" "offset r \<le> k"
    "k < max (i + length d) (last_index r)" "i + length d < 2 ^ 64"
  shows "range_at (extend_range i d r) k
           = (if i \<le> k \<and> k < i + length d then d ! (k - i) else range_at r k)"
proof -
  let ?n = "max (i + length d) (last_index r) - offset r"
  let ?vs = "vector_resize ?n 0 (values r)"
  from assms(1) have l: "last_index r < 2 ^ 64" by (simp add: range_fits_def)
  from assms(2,3) have ol: "offset r \<le> last_index r" by simp
  have lt: "k - offset r < length ?vs"
    using assms(4,5) unfolding vector_resize_length by arith
  have val: "range_at (extend_range i d r) k = copy_to d (i - offset r) ?vs ! (k - offset r)"
    unfolding extend_range_no_wrap [OF assms(2) ol assms(6) l]
    by (simp add: range_at_def relative_index_def)
  have c: "(i - offset r \<le> k - offset r \<and> k - offset r < i - offset r + length d)
             = (i \<le> k \<and> k < i + length d)"
    using assms(2,4) by auto
  have e: "k - offset r - (i - offset r) = k - i"
    using assms(2,4) by auto
  have split: "range_at (extend_range i d r) k
      = (if i \<le> k \<and> k < i + length d then d ! (k - i) else ?vs ! (k - offset r))"
    unfolding val copy_to_nth [OF lt] c e ..
  show ?thesis
  proof (cases "i \<le> k \<and> k < i + length d")
    case True
    with split show ?thesis by simp
  next
    case False
    with assms(3,5) have k: "k < last_index r" by (auto simp: max_def split: if_splits)
    with assms(1,4) have "k - offset r < length (values r)"
      by (simp add: range_fits_def range_size_def)
    from vector_resize_nth [OF this] lt have "?vs ! (k - offset r) = values r ! (k - offset r)"
      by simp
    moreover have "range_at (extend_range i d r) k = ?vs ! (k - offset r)"
      unfolding split using False by (rule if_not_P)
    moreover have "(if i \<le> k \<and> k < i + length d then d ! (k - i) else range_at r k)
        = range_at r k"
      using False by (rule if_not_P)
    ultimately show ?thesis by (simp add: range_at_def relative_index_def)
  qed
qed

lemma merge_loop_absorb: "merge_loop (length pre) (pre @ r # post) = pre @ absorb r post"
proof (induction post arbitrary: r)
  case Nil
  show ?case by (subst merge_loop.simps) simp
next
  case (Cons n post)
  show ?case
  proof (cases "borders r (offset n)")
    case False
    then show ?thesis by (subst merge_loop.simps) (simp add: nth_append)
  next
    case True
    let ?r = "if last_index n > last_index r
              then extend_range (last_index r)
                     (drop (relative_index n (last_index r)) (values n)) r
              else r"
    have "merge_loop (length pre) (pre @ r # n # post) = merge_loop (length pre) (pre @ ?r # post)"
      using True by (subst merge_loop.simps) (simp add: nth_append erase_at_def)
    with Cons [of ?r] True show ?thesis by simp
  qed
qed

text \<open>The range that absorbs its successor reads like the two of them, the first one winning.\<close>

lemma absorb_step_lookup:
  assumes r: "range_fits r" "offset r \<le> last_index r" and n: "range_fits n"
    and b: "borders r (offset n)"
  defines "r' \<equiv> (if last_index n > last_index r
                   then extend_range (last_index r)
                          (drop (relative_index n (last_index r)) (values n)) r
                   else r)"
  shows "range_fits r'" "offset r' = offset r" "last_index r' = max (last_index r) (last_index n)"
    "(if range_includes r' k then Some (range_at r' k) else x)
       = (if range_includes r k then Some (range_at r k)
          else if range_includes n k then Some (range_at n k) else x)"
proof -
  from b have on: "offset r \<le> offset n" "offset n \<le> last_index r" by (auto simp: borders_def)
  let ?d = "drop (relative_index n (last_index r)) (values n)"
  have len: "last_index r + length ?d = last_index n" if "last_index n > last_index r"
    using that n on by (simp add: range_fits_def range_size_def relative_index_def)
  have nb: "last_index n < 2 ^ 64" using n by (simp add: range_fits_def)
  have rb: "last_index r < 2 ^ 64" using r(1) by (simp add: range_fits_def)
  show f: "range_fits r'"
  proof (cases "last_index n > last_index r")
    case True
    with len nb have "last_index r + length ?d < 2 ^ 64" by simp
    from extend_range_fits [OF r(1) r(2) r(2) this] True show ?thesis by (simp add: r'_def)
  next
    case False
    with r(1) show ?thesis by (simp add: r'_def)
  qed
  show o: "offset r' = offset r" by (simp add: r'_def)
  show l: "last_index r' = max (last_index r) (last_index n)"
    using extend_range_last [of r "last_index r" ?d] r len nb rb by (auto simp: r'_def)
  show "(if range_includes r' k then Some (range_at r' k) else x)
       = (if range_includes r k then Some (range_at r k)
          else if range_includes n k then Some (range_at n k) else x)"
  proof (cases "last_index n > last_index r")
    case False
    then have "r' = r" by (simp add: r'_def)
    moreover have "range_includes n k \<Longrightarrow> range_includes r k"
      using False on by (auto simp: range_includes_def)
    ultimately show ?thesis by auto
  next
    case True
    then have r': "r' = extend_range (last_index r) ?d r" by (simp add: r'_def)
    have inc: "range_includes r' k \<longleftrightarrow> range_includes r k \<or> range_includes n k"
      using o l on True by (auto simp: range_includes_def)
    have at: "range_at r' k = (if range_includes r k then range_at r k else range_at n k)"
      if "range_includes r' k"
    proof -
      from that o l True have k: "offset r \<le> k" "k < max (last_index r + length ?d) (last_index r)"
        using len by (auto simp: range_includes_def)
      have "range_at r' k = (if last_index r \<le> k \<and> k < last_index r + length ?d
                             then ?d ! (k - last_index r) else range_at r k)"
        unfolding r' using r k len nb True by (intro extend_range_at) auto
      moreover have "?d ! (k - last_index r) = range_at n k" if "last_index r \<le> k"
      proof -
        from that k len True have "relative_index n (last_index r) + (k - last_index r)
            \<le> length (values n)"
          using n on by (auto simp: range_fits_def range_size_def relative_index_def)
        moreover have "relative_index n (last_index r) + (k - last_index r) = relative_index n k"
          using that on by (auto simp: relative_index_def)
        ultimately show ?thesis by (simp add: range_at_def)
      qed
      ultimately show ?thesis using k len True by (auto simp: range_includes_def)
    qed
    show ?thesis
    proof (cases "range_includes r' k")
      case True
      from at [OF True] inc True show ?thesis by (cases "range_includes r k") simp_all
    next
      case False
      with inc show ?thesis by simp
    qed
  qed
qed

lemma absorb_lookup:
  "range_fits r \<Longrightarrow> offset r \<le> last_index r \<Longrightarrow> \<forall>n \<in> set post. range_fits n \<Longrightarrow>
     lookup (absorb r post) k = lookup (r # post) k"
proof (induction post arbitrary: r)
  case Nil
  then show ?case by simp
next
  case (Cons n post)
  show ?case
  proof (cases "borders r (offset n)")
    case False
    then show ?thesis by simp
  next
    case True
    let ?r = "if last_index n > last_index r
              then extend_range (last_index r)
                     (drop (relative_index n (last_index r)) (values n)) r
              else r"
    from Cons.prems have n: "range_fits n" by simp
    note st = absorb_step_lookup [OF Cons.prems(1,2) n True]
    have "lookup (absorb ?r post) k = lookup (?r # post) k"
      using Cons.prems st(1-3) by (intro Cons.IH) auto
    also have "\<dots> = lookup (r # n # post) k"
      using st(4) [of k "lookup post k"] by simp
    finally show ?thesis using True by simp
  qed
qed

lemma absorb_fits:
  "range_fits r \<Longrightarrow> offset r \<le> last_index r \<Longrightarrow> \<forall>n \<in> set post. range_fits n \<Longrightarrow>
     \<forall>x \<in> set (absorb r post). range_fits x"
proof (induction post arbitrary: r)
  case Nil
  then show ?case by simp
next
  case (Cons n post)
  show ?case
  proof (cases "borders r (offset n)")
    case False
    with Cons.prems show ?thesis by simp
  next
    case True
    from Cons.prems have n: "range_fits n" by simp
    note st = absorb_step_lookup [OF Cons.prems(1,2) n True]
    from Cons.IH [OF st(1)] st(2,3) Cons.prems True show ?thesis by auto
  qed
qed

lemma absorb_ordered:
  "range_fits r \<Longrightarrow> offset r < last_index r \<Longrightarrow> \<forall>n \<in> set post. range_fits n \<Longrightarrow>
   ordered post \<Longrightarrow> \<forall>n \<in> set post. offset r \<le> offset n \<Longrightarrow>
     ordered (absorb r post) \<and> (\<forall>x \<in> set (absorb r post). offset r \<le> offset x)"
proof (induction post arbitrary: r)
  case Nil
  then show ?case by (simp add: ordered_Cons)
next
  case (Cons n post)
  from Cons.prems have on: "ordered post" and nn: "offset n < last_index n"
    and np: "\<forall>x \<in> set post. last_index n \<le> offset x" and rn: "offset r \<le> offset n"
    by (auto simp: ordered_Cons)
  show ?case
  proof (cases "borders r (offset n)")
    case False
    with rn have gap: "last_index r < offset n" by (auto simp: borders_def)
    have "last_index r \<le> offset x" if "x \<in> set (n # post)" for x
      using that gap np nn by auto
    with Cons.prems False show ?thesis by (auto simp: ordered_Cons)
  next
    case True
    let ?r = "if last_index n > last_index r
              then extend_range (last_index r)
                     (drop (relative_index n (last_index r)) (values n)) r
              else r"
    from Cons.prems have n: "range_fits n" and rl: "offset r \<le> last_index r" by simp_all
    note st = absorb_step_lookup [OF Cons.prems(1) rl n True]
    have "ordered (absorb ?r post) \<and> (\<forall>x \<in> set (absorb ?r post). offset ?r \<le> offset x)"
    proof (rule Cons.IH)
      show "range_fits ?r" by (rule st(1))
      show "offset ?r < last_index ?r" using st(2,3) Cons.prems(2) by auto
      show "\<forall>n \<in> set post. range_fits n" using Cons.prems by simp
      show "ordered post" by (rule on)
      show "\<forall>x \<in> set post. offset ?r \<le> offset x"
        using st(2) np nn rn by (auto simp del: extend_range_offset) 
    qed
    with True st(2) show ?thesis by simp
  qed
qed

section \<open>\<open>add_range\<close>\<close>

lemma lookup_None: "(\<forall>p \<in> set ps. \<not> range_includes p k) \<Longrightarrow> lookup ps k = None"
  by (induction ps) auto

lemma lookup_append: "lookup (ps @ xs) k = (case lookup ps k of None \<Rightarrow> lookup xs k | Some v \<Rightarrow> Some v)"
  by (induction ps) auto

lemma lookup_skip:
  "\<forall>p \<in> set ps. last_index p \<le> k \<Longrightarrow> lookup (ps @ xs) k = lookup xs k"
proof -
  assume "\<forall>p \<in> set ps. last_index p \<le> k"
  then have "\<forall>p \<in> set ps. \<not> range_includes p k" by (auto simp: range_includes_def)
  from lookup_None [OF this] show ?thesis by (simp add: lookup_append)
qed

lemma ranges_fix_size [simp]: "ranges (fix_size s) = ranges s"
  by (simp add: fix_size_def)

lemma merge_ranges_decomposed:
  "ranges s = pre @ r # post \<Longrightarrow> i = length pre \<Longrightarrow>
     \<exists>s'. merge_ranges i s = Inr s' \<and> ranges s' = pre @ absorb r post"
  by (simp add: merge_ranges_def merge_loop_absorb)

lemma datarange_simps [simp]:
  "offset (datarange off data) = off"
  "values (datarange off data) = data"
  "off + length data < 2 ^ 64 \<Longrightarrow> last_index (datarange off data) = off + length data"
  "off + length data < 2 ^ 64 \<Longrightarrow> range_fits (datarange off data)"
  by (simp_all add: datarange_def range_fits_def range_size_def wrap_id)

lemma datarange_last:
  "length data = m \<Longrightarrow> off + m < 2 ^ 64 \<Longrightarrow> last_index (datarange off data) = off + m"
  by simp

lemma datarange_fits:
  "length data = m \<Longrightarrow> off + m < 2 ^ 64 \<Longrightarrow> range_fits (datarange off data)"
  by simp

lemma take_upper_bound_last:
  assumes o: "ordered rs" and nb: "\<not> (upper_bound off rs \<noteq> 0 \<and> borders (rs ! (upper_bound off rs - 1)) off)"
    and p: "p \<in> set (take (upper_bound off rs) rs)"
  shows "last_index p \<le> off"
proof -
  let ?i = "upper_bound off rs"
  have ile: "?i \<le> length rs" by (rule upper_bound_le)
  from p obtain m where m: "m < ?i" "p = rs ! m"
    by (auto simp: in_set_conv_nth)
  then have i0: "?i \<noteq> 0" by auto
  have "offset (rs ! (?i - 1)) \<le> off" using i0 by (intro upper_bound_before) simp
  with nb i0 have top: "last_index (rs ! (?i - 1)) < off" by (auto simp: borders_def)
  show ?thesis
  proof (cases "m = ?i - 1")
    case True
    with top m show ?thesis by simp
  next
    case False
    with m ile have "last_index (rs ! m) \<le> offset (rs ! (?i - 1))"
      by (intro ordered_nth_less [OF o]) auto
    also have "\<dots> \<le> off" using i0 by (intro upper_bound_before) simp
    finally show ?thesis using m by simp
  qed
qed

lemma add_range_spec:
  assumes o: "ordered (ranges s)" and f: "\<forall>r \<in> set (ranges s). range_fits r" and d: "data \<noteq> []"
    and bnd: "off + length data < 2 ^ 64"
  shows "\<exists>s'. add_range off data s = Inr s' \<and> ordered (ranges s')
           \<and> (\<forall>r \<in> set (ranges s'). range_fits r)
           \<and> (\<forall>k. off \<le> k \<and> k < off + length data \<longrightarrow>
                  lookup (ranges s') k = Some (data ! (k - off)))"
proof -
  let ?rs = "ranges s"
  let ?i = "upper_bound off ?rs"
  let ?post = "drop ?i ?rs"
  have ile: "?i \<le> length ?rs" by (rule upper_bound_le)
  have post_gt: "\<forall>p \<in> set ?post. off < offset p"
    using upper_bound_drop [OF o] by blast
  have post_o: "ordered ?post" and post_f: "\<forall>n \<in> set ?post. range_fits n"
    using o f append_take_drop_id [of ?i ?rs] ordered_append [of "take ?i ?rs" ?post]
    by (auto dest: in_set_dropD)
  show ?thesis
  proof (cases "?i \<noteq> 0 \<and> borders (?rs ! (?i - 1)) off")
    case True
    let ?j = "?i - 1"
    let ?pre = "take ?j ?rs"
    let ?r = "?rs ! ?j"
    let ?r' = "extend_range off data ?r"
    from True ile have j: "?j < length ?rs" and sj: "Suc ?j = ?i" by auto
    have dec: "?rs = ?pre @ ?r # ?post" using id_take_nth_drop [OF j] sj by simp
    have r_in: "?r \<in> set ?rs" using j by simp
    from r_in f o have rf: "range_fits ?r" and rpos: "offset ?r < last_index ?r"
      by (auto simp: ordered_def)
    from True have rb: "offset ?r \<le> off" "off \<le> last_index ?r" by (auto simp: borders_def)
    from rf have rl: "last_index ?r < 2 ^ 64" by (simp add: range_fits_def)
    from rpos have rle: "offset ?r \<le> last_index ?r" by simp
    have l': "last_index ?r' = max (off + length data) (last_index ?r)"
      using rb(1) rle bnd rl by (rule extend_range_last)
    have rf': "range_fits ?r'" using rf rb(1) rle bnd by (rule extend_range_fits)
    have upd: "?rs[?j := ?r'] = ?pre @ ?r' # ?post"
      using upd_conv_take_nth_drop [OF j] sj by simp
    have "length ?pre = ?j" using j by simp
    from merge_ranges_decomposed [of "s\<lparr>ranges := ?rs[?j := ?r']\<rparr>" ?pre ?r' ?post ?j] upd this
    obtain s' where s': "merge_ranges ?j (s\<lparr>ranges := ?rs[?j := ?r']\<rparr>) = Inr s'"
      "ranges s' = ?pre @ absorb ?r' ?post" by auto
    have ar: "add_range off data s = Inr s'"
      using True s'(1) by (simp add: add_range_def find_next_range_iter_def Let_def)
    from o dec ordered_append [of ?pre "?r # ?post"]
    have pre_o: "ordered ?pre" and pre_lt: "\<forall>p \<in> set ?pre. last_index p \<le> offset ?r"
      by (metis, metis list.set_intros(1))
    have pre_f: "\<forall>p \<in> set ?pre. range_fits p" using f by (auto dest: in_set_takeD)
    have ab: "ordered (absorb ?r' ?post) \<and> (\<forall>x \<in> set (absorb ?r' ?post). offset ?r' \<le> offset x)"
    proof (rule absorb_ordered)
      show "range_fits ?r'" by (rule rf')
      show "offset ?r' < last_index ?r'" using l' rpos by simp
      show "\<forall>n \<in> set ?post. range_fits n" by (rule post_f)
      show "ordered ?post" by (rule post_o)
      show "\<forall>n \<in> set ?post. offset ?r' \<le> offset n" using post_gt rb by auto
    qed
    have cross: "last_index x \<le> offset y"
      if "x \<in> set ?pre" "y \<in> set (absorb ?r' ?post)" for x y
    proof -
      from that(1) pre_lt have "last_index x \<le> offset ?r" by blast
      also from that(2) ab have "offset ?r \<le> offset y" by simp
      finally show ?thesis .
    qed
    have 1: "ordered (ranges s')"
      unfolding s'(2) ordered_append using pre_o ab cross by blast
    have 2: "\<forall>r \<in> set (ranges s'). range_fits r"
      unfolding s'(2) using pre_f absorb_fits [of ?r' ?post] post_f l' rpos rf' by auto
    have 3: "lookup (ranges s') k = Some (data ! (k - off))"
      if k: "off \<le> k \<and> k < off + length data" for k
    proof -
      have "lookup (ranges s') k = lookup (absorb ?r' ?post) k"
        unfolding s'(2) using pre_lt rb k by (intro lookup_skip) auto
      also have "\<dots> = lookup (?r' # ?post) k"
        using post_f l' rpos rf' by (intro absorb_lookup) auto
      also have "\<dots> = Some (range_at ?r' k)"
      proof -
        have "range_includes ?r' k"
          using k rb unfolding range_includes_def l' by (auto simp: less_max_iff_disj)
        then show ?thesis by simp
      qed
      also have "range_at ?r' k = data ! (k - off)"
        using extend_range_at [OF rf rb, of k data] k rb bnd by (simp add: less_max_iff_disj)
      finally show ?thesis .
    qed
    from ar 1 2 3 show ?thesis by blast
  next
    case False
    let ?pre = "take ?i ?rs"
    let ?d = "datarange off data"
    have ld: "last_index ?d = off + length data" and fd: "range_fits ?d"
      using bnd by simp_all
    have ne: "\<not> range_empty ?d" using d ld by (simp add: range_empty_def)
    have ins: "insert_range ?i ?d ?rs = ?pre @ ?d # ?post"
      using ne by (simp add: insert_range_def insert_at_def)
    have "length ?pre = ?i" using ile by simp
    from merge_ranges_decomposed [of "s\<lparr>ranges := insert_range ?i ?d ?rs\<rparr>" ?pre ?d ?post ?i] ins this
    obtain s' where s': "merge_ranges ?i (s\<lparr>ranges := insert_range ?i ?d ?rs\<rparr>) = Inr s'"
      "ranges s' = ?pre @ absorb ?d ?post" by auto
    have ar: "add_range off data s = Inr s'"
      using False s'(1) by (auto simp: add_range_def find_next_range_iter_def Let_def)
    have pre_lt: "\<forall>p \<in> set ?pre. last_index p \<le> off"
      using take_upper_bound_last [OF o False] by blast
    have pre_o: "ordered ?pre" and pre_f: "\<forall>p \<in> set ?pre. range_fits p"
      using o f append_take_drop_id [of ?i ?rs] ordered_append [of ?pre ?post]
      by (auto dest: in_set_takeD)
    have ab: "ordered (absorb ?d ?post) \<and> (\<forall>x \<in> set (absorb ?d ?post). offset ?d \<le> offset x)"
    proof (rule absorb_ordered)
      show "range_fits ?d" by (rule fd)
      show "offset ?d < last_index ?d" using d ld by simp
      show "\<forall>n \<in> set ?post. range_fits n" by (rule post_f)
      show "ordered ?post" by (rule post_o)
      show "\<forall>n \<in> set ?post. offset ?d \<le> offset n" using post_gt by auto
    qed
    have cross: "last_index x \<le> offset y"
      if "x \<in> set ?pre" "y \<in> set (absorb ?d ?post)" for x y
    proof -
      from that(1) pre_lt have "last_index x \<le> off" by blast
      also from that(2) ab have "off \<le> offset y" by simp
      finally show ?thesis .
    qed
    have 1: "ordered (ranges s')"
      unfolding s'(2) ordered_append using pre_o ab cross by blast
    have 2: "\<forall>r \<in> set (ranges s'). range_fits r"
      unfolding s'(2) using pre_f absorb_fits [of ?d ?post] post_f fd ld by auto
    have 3: "lookup (ranges s') k = Some (data ! (k - off))"
      if k: "off \<le> k \<and> k < off + length data" for k
    proof -
      have "lookup (ranges s') k = lookup (absorb ?d ?post) k"
        unfolding s'(2) using pre_lt k by (intro lookup_skip) auto
      also have "\<dots> = lookup (?d # ?post) k"
        using post_f fd ld by (intro absorb_lookup) auto
      also have "\<dots> = Some (data ! (k - off))"
        using k ld by (simp add: range_includes_def range_at_def relative_index_def)
      finally show ?thesis .
    qed
    from ar 1 2 3 show ?thesis by blast
  qed
qed

lemma data_fits_iff: "data_fits s = (\<forall>r \<in> set (ranges s). range_fits r)"
  by (simp add: data_fits_def list_all_iff)

text \<open>
  Evaluation on concrete vectors: the definitions of the container, unfolded by the
  simplifier.
\<close>

lemma replicate_numeral_Cons: "replicate (numeral k) x = x # replicate (pred_numeral k) x"
  by (simp add: numeral_eq_Suc)

lemma list_update_numeral_Cons: "(x # xs)[numeral k := y] = x # xs[pred_numeral k := y]"
  by (simp add: numeral_eq_Suc)

lemmas eval_defs = replicate_numeral_Cons list_update_numeral_Cons
  add_range_def find_next_range_iter_def find_range_iter_at_or_after_def
  find_extending_range_iter_def merge_ranges_def fix_size_def
  insert_range_def insert_at_def erase_at_def range_empty_def range_includes_def
  datarange_def borders_def extend_range_def resize_range_def move_head_def move_tail_def
  relative_index_def range_size_def range_set_def vector_resize_def wrap_def
  merge_loop.simps get_at_def range_at_def sparse_vector_default_def size_sv_def Let_def

lemmas combine_defs = combine_range_def combine_loop.simps combine_existing_def

text \<open>
  Claim C4, as the code has it. Take a vector whose ranges are non-empty, sorted and do not
  overlap (as in every vector that passes \<open>is_valid()\<close>), each range holding as many
  values as it spans and ending below \<open>2^64\<close>, and two calls whose ends
  \<open>a + |A|\<close> and \<open>b + |B|\<close> are values of \<open>size_type\<close> (below \<open>2^64\<close>). Then \<open>add_range(a, A)\<close> and
  \<open>add_range(b, B)\<close> both return, and every index \<open>k\<close> in both intervals
  \<open>[a, a+|A|)\<close> and \<open>[b, b+|B|)\<close> then reads \<open>B[k - b]\<close>.
\<close>

theorem C4_later_add_range_wins:
  assumes "ordered (ranges s)" "data_fits s"
    and "a + length A < 2 ^ 64" "b + length B < 2 ^ 64"
    and "a \<le> k" "k < a + length A" "b \<le> k" "k < b + length B"
  shows "\<exists>s1 s2. add_range a A s = Inr s1 \<and> add_range b B s1 = Inr s2
           \<and> get_at s2 k = B ! (k - b)"
proof -
  from assms(5,6) have A: "A \<noteq> []" by auto
  from assms(7,8) have B: "B \<noteq> []" by auto
  from add_range_spec [OF assms(1) assms(2) [unfolded data_fits_iff] A assms(3)]
  obtain s1 where s1: "add_range a A s = Inr s1" "ordered (ranges s1)"
    "\<forall>r \<in> set (ranges s1). range_fits r" by blast
  from add_range_spec [OF s1(2,3) B assms(4)]
  obtain s2 where s2: "add_range b B s1 = Inr s2" "ordered (ranges s2)"
    "\<forall>k. b \<le> k \<and> k < b + length B \<longrightarrow> lookup (ranges s2) k = Some (B ! (k - b))" by blast
  from s2(3) assms(7,8) have "lookup (ranges s2) k = Some (B ! (k - b))" by simp
  with get_at_lookup [OF s2(2), of k] have "get_at s2 k = B ! (k - b)" by simp
  with s1(1) s2(1) show ?thesis by blast
qed

theorem C4_later_add_range_wins_witness:
  "add_range 3 [1, 2, 3]
        \<lparr>nominal_size = 10, ranges = [\<lparr>offset = 7, last_index = 9, values = [4, 5 :: int]\<rparr>]\<rparr>
     = Inr \<lparr>nominal_size = 10,
            ranges = [\<lparr>offset = 3, last_index = 6, values = [1, 2, 3]\<rparr>,
                      \<lparr>offset = 7, last_index = 9, values = [4, 5]\<rparr>]\<rparr>
   \<and> add_range 5 [9, 8]
        \<lparr>nominal_size = 10,
          ranges = [\<lparr>offset = 3, last_index = 6, values = [1, 2, 3 :: int]\<rparr>,
                    \<lparr>offset = 7, last_index = 9, values = [4, 5]\<rparr>]\<rparr>
     = Inr \<lparr>nominal_size = 10,
            ranges = [\<lparr>offset = 3, last_index = 9, values = [1, 2, 9, 8, 4, 5]\<rparr>]\<rparr>
   \<and> get_at \<lparr>nominal_size = 10,
               ranges = [\<lparr>offset = 3, last_index = 9, values = [1, 2, 9, 8, 4, 5 :: int]\<rparr>]\<rparr> 5
       = 9"
proof -
  let ?s = "\<lparr>nominal_size = 10,
             ranges = [\<lparr>offset = 7, last_index = 9, values = [4, 5 :: int]\<rparr>]\<rparr>"
  have o: "ordered (ranges ?s)" by (simp add: ordered_def)
  have f: "data_fits ?s" by (simp add: data_fits_def range_fits_def range_size_def)
  have e1: "add_range 3 [1, 2, 3] ?s
     = Inr \<lparr>nominal_size = 10,
            ranges = [\<lparr>offset = 3, last_index = 6, values = [1, 2, 3]\<rparr>,
                      \<lparr>offset = 7, last_index = 9, values = [4, 5]\<rparr>]\<rparr>"
    by (simp add: eval_defs)
  have e2: "add_range 5 [9, 8]
        \<lparr>nominal_size = 10,
          ranges = [\<lparr>offset = 3, last_index = 6, values = [1, 2, 3 :: int]\<rparr>,
                    \<lparr>offset = 7, last_index = 9, values = [4, 5]\<rparr>]\<rparr>
     = Inr \<lparr>nominal_size = 10,
            ranges = [\<lparr>offset = 3, last_index = 9, values = [1, 2, 9, 8, 4, 5]\<rparr>]\<rparr>"
    by (simp add: eval_defs)
  from C4_later_add_range_wins [OF o f, of 3 "[1, 2, 3]" 5 "[9, 8]" 5] e1 e2
  show ?thesis by simp
qed

text \<open>
  Claim C4 as stated has no bound on the ends of the intervals. On an empty vector,
  \<open>add_range(2^64 - 3, {5, 6})\<close> creates the range \<open>[2^64 - 3, 2^64 - 1)\<close>, and
  \<open>add_range(2^64 - 2, {1, 2, 3})\<close> extends it to four values; its end
  \<open>offset + 4\<close> wraps to 1. The index \<open>2^64 - 2\<close> lies in both intervals, and it
  then reads 0 where \<open>B[0]\<close> is 1.
\<close>

theorem C4_add_range_wraps_counterexample:
  "add_range 18446744073709551613 [5, 6] sparse_vector_default
     = Inr \<lparr>nominal_size = 18446744073709551615,
            ranges = [\<lparr>offset = 18446744073709551613, last_index = 18446744073709551615,
                       values = [5, 6 :: int]\<rparr>]\<rparr>
   \<and> add_range 18446744073709551614 [1, 2, 3]
        \<lparr>nominal_size = 18446744073709551615,
          ranges = [\<lparr>offset = 18446744073709551613, last_index = 18446744073709551615,
                     values = [5, 6 :: int]\<rparr>]\<rparr>
     = Inr \<lparr>nominal_size = 18446744073709551615,
            ranges = [\<lparr>offset = 18446744073709551613, last_index = 1,
                       values = [5, 1, 2, 3]\<rparr>]\<rparr>
   \<and> get_at \<lparr>nominal_size = 18446744073709551615,
            ranges = [\<lparr>offset = 18446744073709551613, last_index = 1,
                       values = [5, 1, 2, 3 :: int]\<rparr>]\<rparr> 18446744073709551614 = 0
   \<and> [1, 2, 3 :: int] ! (18446744073709551614 - 18446744073709551614) = 1"
  by (simp add: eval_defs)

section \<open>\<open>combine_range\<close>\<close>

lemma combine_void_spec:
  "combine_void op v n src = (map (op v) (take n src), drop n src)"
  by (induction op v n src rule: combine_void.induct) auto

lemma combine_inner_spec:
  "d < length vs \<Longrightarrow>
     \<exists>vs'. combine_inner op vs d src off
             = (vs', drop (min (length src) (length vs - d)) src,
                off + min (length src) (length vs - d))
           \<and> length vs' = length vs
           \<and> (\<forall>j < length vs. vs' ! j
                = (if d \<le> j \<and> j < d + length src then op (vs ! j) (src ! (j - d)) else vs ! j))"
proof (induction src arbitrary: vs d off)
  case Nil
  then show ?case by auto
next
  case (Cons x src)
  let ?vs1 = "vs[d := op (vs ! d) x]"
  show ?case
  proof (cases "Suc d = length vs")
    case True
    then have m: "min (length (x # src)) (length vs - d) = 1" by simp
    have "?vs1 ! j
        = (if d \<le> j \<and> j < d + length (x # src) then op (vs ! j) ((x # src) ! (j - d)) else vs ! j)"
      if j: "j < length vs" for j
    proof (cases "j = d")
      case True
      with j show ?thesis by simp
    next
      case False
      with j \<open>Suc d = length vs\<close> have "j < d" by arith
      then show ?thesis by simp
    qed
    then have "\<forall>j < length vs. ?vs1 ! j
        = (if d \<le> j \<and> j < d + length (x # src) then op (vs ! j) ((x # src) ! (j - d)) else vs ! j)"
      by blast
    with True show ?thesis unfolding m by simp
  next
    case False
    with Cons.prems have lt: "Suc d < length ?vs1" by simp
    from Cons.IH [OF lt, of "Suc off"]
    obtain vs' where vs': "combine_inner op ?vs1 (Suc d) src (Suc off)
             = (vs', drop (min (length src) (length ?vs1 - Suc d)) src,
                Suc off + min (length src) (length ?vs1 - Suc d))"
      "length vs' = length ?vs1"
      "\<forall>j < length ?vs1. vs' ! j
          = (if Suc d \<le> j \<and> j < Suc d + length src
             then op (?vs1 ! j) (src ! (j - Suc d)) else ?vs1 ! j)"
      by blast
    have "min (Suc (length src)) (length vs - d) = Suc (min (length src) (length vs - Suc d))"
      using Cons.prems by arith
    then have m: "min (length (x # src)) (length vs - d)
        = Suc (min (length src) (length vs - Suc d))"
      by simp
    have nth: "vs' ! j
        = (if d \<le> j \<and> j < d + length (x # src) then op (vs ! j) ((x # src) ! (j - d)) else vs ! j)"
      if j: "j < length vs" for j
    proof (cases "j = d")
      case True
      with vs'(3) j show ?thesis by simp
    next
      case F: False
      show ?thesis
      proof (cases "d < j")
        case True
        then have "(x # src) ! (j - d) = src ! (j - Suc d)" by (simp add: nth_Cons')
        with vs'(3) j True show ?thesis by auto
      next
        case False
        with F vs'(3) j show ?thesis by auto
      qed
    qed
    from False vs'(1,2) nth show ?thesis unfolding m by simp
  qed
qed

lemma lookup_replace:
  assumes "offset r' = offset r" "last_index r' = last_index r"
  shows "lookup (pre @ r' # post) k
           = (if lookup pre k = None \<and> range_includes r k then Some (range_at r' k)
              else lookup (pre @ r # post) k)"
  using assms by (auto simp: lookup_append range_includes_def split: option.splits)

lemma lookup_insert:
  "lookup (pre @ d # post) k
     = (if lookup pre k = None \<and> range_includes d k then Some (range_at d k)
        else lookup (pre @ post) k)"
  by (auto simp: lookup_append split: option.splits)

lemma combine_existing_spec:
  assumes f: "range_fits r" and inc: "range_includes r off"
    and n_def: "n = min (length src) (last_index r - off)"
  shows "\<exists>r'. combine_existing op src off (length pre) (pre @ r # post)
             = (pre @ r' # post, drop n src,
                (if drop n src = [] then off + n else last_index r),
                (if drop n src = [] then length pre else Suc (length pre)))
           \<and> offset r' = offset r \<and> last_index r' = last_index r \<and> range_fits r'
           \<and> (\<forall>k. range_includes r k \<longrightarrow> range_at r' k
                  = (if off \<le> k \<and> k < off + length src
                     then op (range_at r k) (src ! (k - off)) else range_at r k))"
proof -
  let ?d = "relative_index r off"
  from inc have io: "offset r \<le> off" "off < last_index r" by (simp_all add: range_includes_def)
  from f have len: "length (values r) = last_index r - offset r"
    by (simp add: range_fits_def range_size_def)
  have d: "?d < length (values r)" using io len by (simp add: relative_index_def)
  have nn: "min (length src) (length (values r) - ?d) = n"
    using io len by (simp add: n_def relative_index_def)
  from combine_inner_spec [OF d, of op src off]
  obtain vs' where vs': "combine_inner op (values r) ?d src off = (vs', drop n src, off + n)"
    "length vs' = length (values r)"
    "\<forall>j < length (values r). vs' ! j
        = (if ?d \<le> j \<and> j < ?d + length src then op (values r ! j) (src ! (j - ?d))
           else values r ! j)"
    unfolding nn by blast
  let ?r' = "r\<lparr>values := vs'\<rparr>"
  have ce: "combine_existing op src off (length pre) (pre @ r # post)
             = (pre @ ?r' # post, drop n src,
                (if drop n src = [] then off + n else last_index r),
                (if drop n src = [] then length pre else Suc (length pre)))"
    using inc vs'(1) by (simp add: combine_existing_def Let_def)
  have fits: "range_fits ?r'" using f vs'(2) by (simp add: range_fits_def range_size_def)
  have at: "range_at ?r' k
      = (if off \<le> k \<and> k < off + length src
         then op (range_at r k) (src ! (k - off)) else range_at r k)"
    if k: "range_includes r k" for k
  proof -
    from k have ko: "offset r \<le> k" "k < last_index r" by (simp_all add: range_includes_def)
    let ?j = "k - offset r"
    have j: "?j < length (values r)" using ko len by arith
    have c: "(?d \<le> ?j \<and> ?j < ?d + length src) = (off \<le> k \<and> k < off + length src)"
      using ko io by (auto simp: relative_index_def)
    have e: "?j - ?d = k - off" using ko io by (auto simp: relative_index_def)
    from vs'(3) j have "vs' ! ?j
        = (if ?d \<le> ?j \<and> ?j < ?d + length src then op (values r ! ?j) (src ! (?j - ?d))
           else values r ! ?j)" by blast
    then show ?thesis unfolding c e by (simp add: range_at_def relative_index_def)
  qed
  from ce fits at show ?thesis by (intro exI [of _ ?r']) simp
qed

lemma combined_outside:
  "\<not> (off \<le> k \<and> k < off + length src) \<Longrightarrow> combined op v rs off src k = lookup rs k"
  unfolding combined_def by (rule if_not_P)

lemma lookup_before:
  "\<forall>p \<in> set pre. last_index p \<le> off \<Longrightarrow> off \<le> k \<Longrightarrow> lookup pre k = None"
  by (intro lookup_None) (auto simp: range_includes_def)

lemma combined_existing_compose:
  assumes pre: "\<forall>p \<in> set pre. last_index p \<le> off" and inc: "range_includes r off"
    and o': "offset r' = offset r" and l': "last_index r' = last_index r"
    and at: "\<forall>k. range_includes r k \<longrightarrow> range_at r' k
                  = (if off \<le> k \<and> k < off + length src
                     then op (range_at r k) (src ! (k - off)) else range_at r k)"
    and n: "n = min (length src) (last_index r - off)"
  shows "combined op v (pre @ r' # post) (off + n) (drop n src) k
           = combined op v (pre @ r # post) off src k"
proof -
  from inc have io: "offset r \<le> off" "off < last_index r" by (simp_all add: range_includes_def)
  note rep = lookup_replace [OF o' l', of pre post k]
  have up: "off + n + length (drop n src) = off + length src" using n by simp
  consider (a) "off \<le> k" "k < off + n" | (b) "off + n \<le> k" "k < off + length src"
    | (c) "k < off \<or> off + length src \<le> k" by linarith
  then show ?thesis
  proof cases
    case a
    from a n io have kin: "range_includes r k" and ks: "k < off + length src"
      by (auto simp: range_includes_def)
    from lookup_before [OF pre a(1)] have pn: "lookup pre k = None" .
    from pn kin have l1: "lookup (pre @ r # post) k = Some (range_at r k)"
      by (simp add: lookup_append)
    from pn kin rep have l2: "lookup (pre @ r' # post) k = Some (range_at r' k)" by simp
    from at kin a(1) ks have "range_at r' k = op (range_at r k) (src ! (k - off))" by simp
    with l1 l2 a ks show ?thesis by (simp add: combined_def cell_or_def)
  next
    case b
    from b n have nl: "n = last_index r - off" "n < length src" by (auto simp: min_def)
    with b io have "\<not> range_includes r k" by (auto simp: range_includes_def)
    with rep have same: "lookup (pre @ r' # post) k = lookup (pre @ r # post) k" by simp
    have "drop n src ! (k - (off + n)) = src ! (k - off)" using b nl by simp
    with same b up show ?thesis by (simp add: combined_def)
  next
    case c
    have "lookup (pre @ r' # post) k = lookup (pre @ r # post) k"
    proof (cases "lookup pre k = None \<and> range_includes r k")
      case True
      with at c have "range_at r' k = range_at r k" by auto
      with True rep show ?thesis by (simp add: lookup_append)
    next
      case False
      with rep show ?thesis by auto
    qed
    moreover from c up have "\<not> (off + n \<le> k \<and> k < off + n + length (drop n src))" by auto
    then have "combined op v (pre @ r' # post) (off + n) (drop n src) k
        = lookup (pre @ r' # post) k" by (rule combined_outside)
    moreover from c have "\<not> (off \<le> k \<and> k < off + length src)" by auto
    then have "combined op v (pre @ r # post) off src k = lookup (pre @ r # post) k"
      by (rule combined_outside)
    ultimately show ?thesis by simp
  qed
qed

lemma combined_void_compose:
  assumes pre: "\<forall>p \<in> set pre. last_index p \<le> off"
    and post: "\<forall>q \<in> set post. off + m \<le> offset q" and m: "m \<le> length src"
    and bnd: "off + m < 2 ^ 64"
  shows "combined op v (pre @ datarange off (map (op v) (take m src)) # post)
             (off + m) (drop m src) k
           = combined op v (pre @ post) off src k"
proof -
  let ?d = "datarange off (map (op v) (take m src))"
  have lm: "length (map (op v) (take m src)) = m" using m by simp
  have ld: "last_index ?d = off + m" by (rule datarange_last [OF lm bnd])
  note ins = lookup_insert [of pre ?d post k]
  have up: "off + m + length (drop m src) = off + length src" using m by simp
  have inc: "range_includes ?d k = (off \<le> k \<and> k < off + m)"
    unfolding range_includes_def ld by simp
  consider (a) "off \<le> k" "k < off + m" | (b) "off + m \<le> k" "k < off + length src"
    | (c) "k < off \<or> off + length src \<le> k" by linarith
  then show ?thesis
  proof cases
    case a
    from lookup_before [OF pre a(1)] have pn: "lookup pre k = None" .
    have "\<forall>q \<in> set post. \<not> range_includes q k"
      using post a by (auto simp: range_includes_def)
    from lookup_None [OF this] pn have none: "lookup (pre @ post) k = None"
      by (simp add: lookup_append)
    have "range_at ?d k = op v (src ! (k - off))"
      using a m by (simp add: range_at_def relative_index_def)
    with ins pn inc a have "lookup (pre @ ?d # post) k = Some (op v (src ! (k - off)))" by simp
    with none a m show ?thesis by (simp add: combined_def cell_or_def)
  next
    case b
    with ins inc have same: "lookup (pre @ ?d # post) k = lookup (pre @ post) k" by simp
    have "drop m src ! (k - (off + m)) = src ! (k - off)" using b m by simp
    with same b up show ?thesis by (simp add: combined_def)
  next
    case c
    with m have "\<not> range_includes ?d k" unfolding inc by auto
    with ins have "lookup (pre @ ?d # post) k = lookup (pre @ post) k" by simp
    moreover from c up have "\<not> (off + m \<le> k \<and> k < off + m + length (drop m src))" by auto
    then have "combined op v (pre @ ?d # post) (off + m) (drop m src) k
        = lookup (pre @ ?d # post) k" by (rule combined_outside)
    moreover from c have "\<not> (off \<le> k \<and> k < off + length src)" by auto
    then have "combined op v (pre @ post) off src k = lookup (pre @ post) k"
      by (rule combined_outside)
    ultimately show ?thesis by simp
  qed
qed

lemma is_valid_loop_separated: "is_valid_loop rs \<Longrightarrow> separated rs"
proof (induction rs rule: is_valid_loop.induct)
  case 1
  then show ?case by (simp add: separated_def)
next
  case (2 r)
  then show ?case by (simp add: separated_def)
next
  case (3 r n rs)
  from "3.prems" have ln: "offset r < offset n"
    and sep: "separate r n" and rest: "is_valid_loop (n # rs)"
    by (auto simp: less_range_def split: if_splits)
  from "3.IH" "3.prems" rest have sn: "separated (n # rs)"
    by (auto simp: less_range_def split: if_splits)
  from is_valid_loop_ordered [OF rest] have on: "ordered (n # rs)" .
  then have n: "offset n < last_index n" by (simp add: ordered_Cons)
  with sep ln have gap: "last_index r < offset n" by (auto simp: separate_def)
  have "last_index r < offset x" if "x \<in> set (n # rs)" for x
  proof (cases "x = n")
    case True
    with gap show ?thesis by simp
  next
    case False
    with that on have "last_index n \<le> offset x" by (auto simp: ordered_Cons)
    with gap n show ?thesis by linarith
  qed
  with sn show ?case by (simp add: separated_def)
qed

lemma is_valid_separated: "is_valid s \<Longrightarrow> separated (ranges s)"
proof (cases "ranges s = []")
  case True
  then show ?thesis by (simp add: separated_def)
next
  case False
  assume "is_valid s"
  with False have "is_valid_loop (ranges s)" by (auto simp: is_valid_def split: if_splits)
  then show ?thesis by (rule is_valid_loop_separated)
qed

lemma separated_drop: "separated rs \<Longrightarrow> separated (drop n rs)"
  unfolding separated_def by (rule sorted_wrt_drop)

lemma take_min_length: "take (min n (length xs)) xs = take n xs"
  by (simp add: min_def)

lemma drop_min_length: "drop (min n (length xs)) xs = drop n xs"
  by (simp add: min_def)

lemma combine_loop_done:
  "src \<noteq> [] \<Longrightarrow> combine_existing op src off d rs = (rs1, [], off1, dest1) \<Longrightarrow>
     combine_loop ms op v src off d rs = Inr rs1"
  by (subst combine_loop.simps) simp

lemma combine_loop_void:
  assumes src: "src \<noteq> []" and ce: "combine_existing op src off d rs = (P @ Q, src1, off1, length P)"
    and src1: "src1 \<noteq> []" and gap: "Q \<noteq> [] \<longrightarrow> off1 < offset (hd Q)"
    and m: "m = min (if Q = [] then length src1 else offset (hd Q) - off1) (length src1)"
    and cap: "(if Q = [] then length src1 else offset (hd Q) - off1) \<le> ms"
    and bnd: "off1 + m < 2 ^ 64"
  shows "combine_loop ms op v src off d rs
           = combine_loop ms op v (drop m src1) (off1 + m)
               (length (P @ [datarange off1 (map (op v) (take m src1))]))
               ((P @ [datarange off1 (map (op v) (take m src1))]) @ Q)"
proof -
  let ?nrs = "if Q = [] then length src1 else offset (hd Q) - off1"
  let ?D = "datarange off1 (map (op v) (take m src1))"
  have nrs: "(if length P = length (P @ Q) then length src1 else offset ((P @ Q) ! length P) - off1)
      = ?nrs"
    by (cases Q) (simp_all add: nth_append)
  have t: "take ?nrs src1 = take m src1" and dr: "drop ?nrs src1 = drop m src1"
    unfolding m by (rule take_min_length [symmetric], rule drop_min_length [symmetric])
  have mpos: "0 < m" using src1 gap unfolding m by (cases Q) auto
  have lm: "length (map (op v) (take m src1)) = m" unfolding m by simp
  have l: "last_index ?D = off1 + m" by (rule datarange_last [OF lm bnd])
  have ne: "\<not> range_empty ?D" using mpos l by (simp add: range_empty_def)
  have ins: "insert_range (length P) ?D (P @ Q) = P @ ?D # Q"
    using ne by (simp add: insert_range_def insert_at_def)
  have lt: "length P < length (P @ ?D # Q)" by simp
  have at: "(P @ ?D # Q) ! length P = ?D" by simp
  have nc: "(ms < ?nrs) = False" using cap by simp
  have "combine_loop ms op v src off d rs
      = combine_loop ms op v (drop m src1) (off1 + m) (Suc (length P)) (P @ ?D # Q)"
    by (subst combine_loop.simps)
       (simp only: src ce src1 if_False if_True prod.case nrs nc Let_def combine_void_spec t dr
          ins lt at l)
  then show ?thesis by simp
qed

lemma void_step_invariant:
  assumes o: "ordered (P @ Q)" and f: "\<forall>r \<in> set (P @ Q). range_fits r"
    and pre: "\<forall>p \<in> set P. last_index p \<le> off"
    and gap: "Q \<noteq> [] \<longrightarrow> off < offset (hd Q)" and src: "src \<noteq> []"
    and m: "m = min (if Q = [] then length src else offset (hd Q) - off) (length src)"
    and D_def: "D = datarange off (map (op v) (take m src))"
    and bnd: "off + length src < 2 ^ 64"
  shows "0 < m" "m \<le> length src" "\<forall>q \<in> set Q. off + m \<le> offset q"
    "ordered ((P @ [D]) @ Q)" "\<forall>r \<in> set ((P @ [D]) @ Q). range_fits r"
    "\<forall>p \<in> set (P @ [D]). last_index p \<le> off + m"
    "Q \<noteq> [] \<longrightarrow> off + m < last_index (hd Q)"
proof -
  show mpos: "0 < m" using src gap unfolding m by (cases Q) auto
  show mle: "m \<le> length src" unfolding m by simp
  from o have oP: "ordered P" and oQ: "ordered Q"
    and cross: "\<forall>x \<in> set P. \<forall>y \<in> set Q. last_index x \<le> offset y"
    by (simp_all add: ordered_append)
  show post: "\<forall>q \<in> set Q. off + m \<le> offset q"
  proof
    fix q assume q: "q \<in> set Q"
    then obtain h t where Q: "Q = h # t" by (cases Q) auto
    from gap Q m have hm: "off + m \<le> offset h" by (auto simp: min_def split: if_splits)
    show "off + m \<le> offset q"
    proof (cases "q = h")
      case True
      with hm show ?thesis by simp
    next
      case False
      with q Q oQ have "last_index h \<le> offset q" "offset h < last_index h"
        by (auto simp: ordered_Cons)
      with hm show ?thesis by linarith
    qed
  qed
  have lm: "length (map (op v) (take m src)) = m" using mle by simp
  have bm: "off + m < 2 ^ 64" using mle bnd by simp
  have lD: "last_index D = off + m" "offset D = off"
    unfolding D_def by (rule datarange_last [OF lm bm], simp)
  have fD: "range_fits D" unfolding D_def by (rule datarange_fits [OF lm bm])
  have oD: "ordered [D]" using mpos lD by (simp add: ordered_Cons)
  have "ordered (D # Q)" using oQ post lD mpos by (simp add: ordered_Cons)
  moreover have "\<forall>x \<in> set P. \<forall>y \<in> set (D # Q). last_index x \<le> offset y"
    using cross pre lD by auto
  ultimately have "ordered (P @ D # Q)" using oP unfolding ordered_append by blast
  then show "ordered ((P @ [D]) @ Q)" by simp
  show "\<forall>r \<in> set ((P @ [D]) @ Q). range_fits r" using f fD by auto
  show "\<forall>p \<in> set (P @ [D]). last_index p \<le> off + m" using pre lD by auto
  show "Q \<noteq> [] \<longrightarrow> off + m < last_index (hd Q)"
  proof
    assume "Q \<noteq> []"
    then have h: "hd Q \<in> set Q" by simp
    with post have "off + m \<le> offset (hd Q)" by blast
    moreover from h oQ have "offset (hd Q) < last_index (hd Q)" by (simp add: ordered_def)
    ultimately show "off + m < last_index (hd Q)" by linarith
  qed
qed

lemma combined_Nil: "combined op v rs off [] k = lookup rs k"
  by (rule combined_outside) simp

lemma combine_loop_spec:
  assumes "ordered (pre @ post)" "\<forall>r \<in> set (pre @ post). range_fits r"
    "\<forall>p \<in> set pre. last_index p \<le> off" "post \<noteq> [] \<longrightarrow> off < last_index (hd post)"
    "separated post"
    "off + length src < 2 ^ 64" "length src \<le> ms" "\<forall>q \<in> set post. offset q - off \<le> ms"
  shows "\<exists>res. combine_loop ms op v src off (length pre) (pre @ post) = Inr res
           \<and> ordered res \<and> (\<forall>r \<in> set res. range_fits r)
           \<and> (\<forall>k. lookup res k = combined op v (pre @ post) off src k)"
  using assms
proof (induction "length src" arbitrary: src off pre post rule: less_induct)
  case less
  note o = less.prems(1) and f = less.prems(2) and pl = less.prems(3)
    and front = less.prems(4) and sep = less.prems(5)
    and bnd = less.prems(6) and cap = less.prems(7) and far = less.prems(8)
  show ?case
  proof (cases "src = []")
    case True
    have "combine_loop ms op v src off (length pre) (pre @ post) = Inr (pre @ post)"
      using True by (subst combine_loop.simps) simp
    with o f True show ?thesis by (simp add: combined_Nil)
  next
    case src: False
    text \<open>Step (2) and the rest of the loop, from a state in the void.\<close>
    have void: "\<exists>res. combine_loop ms op v src off (length pre) (pre @ post) = Inr res
           \<and> ordered res \<and> (\<forall>r \<in> set res. range_fits r)
           \<and> (\<forall>k. lookup res k = combined op v (P @ Q) off1 src1 k)"
      if ce: "combine_existing op src off (length pre) (pre @ post) = (P @ Q, src1, off1, length P)"
        and s1: "src1 \<noteq> []" and len: "length src1 \<le> length src"
        and oPQ: "ordered (P @ Q)" and fPQ: "\<forall>r \<in> set (P @ Q). range_fits r"
        and pP: "\<forall>p \<in> set P. last_index p \<le> off1"
        and gap: "Q \<noteq> [] \<longrightarrow> off1 < offset (hd Q)" and sQ: "separated Q"
        and bnd1: "off1 + length src1 < 2 ^ 64" and cap1: "length src1 \<le> ms"
        and far1: "\<forall>q \<in> set Q. offset q - off1 \<le> ms"
      for P Q src1 off1
    proof -
      define m where "m = min (if Q = [] then length src1 else offset (hd Q) - off1) (length src1)"
      define D where "D = datarange off1 (map (op v) (take m src1))"
      note inv = void_step_invariant [where P = P and Q = Q and off = off1 and src = src1
          and m = m and D = D and op = op and v = v, OF oPQ fPQ pP gap s1 m_def D_def bnd1]
      have size_ok: "(if Q = [] then length src1 else offset (hd Q) - off1) \<le> ms"
        using cap1 far1 by (cases Q) auto
      have bm: "off1 + m < 2 ^ 64" using inv(2) bnd1 by simp
      have unf: "combine_loop ms op v src off (length pre) (pre @ post)
          = combine_loop ms op v (drop m src1) (off1 + m) (length (P @ [D])) ((P @ [D]) @ Q)"
        unfolding D_def by (rule combine_loop_void [OF src ce s1 gap m_def size_ok bm])
      have shorter: "length (drop m src1) < length src" using inv(1) s1 len by (cases src1) auto
      have bnd2: "off1 + m + length (drop m src1) < 2 ^ 64" using inv(2) bnd1 by simp
      have cap2: "length (drop m src1) \<le> ms" using cap1 by simp
      have far2: "\<forall>q \<in> set Q. offset q - (off1 + m) \<le> ms"
      proof
        fix q assume "q \<in> set Q"
        with far1 have "offset q - off1 \<le> ms" by blast
        then show "offset q - (off1 + m) \<le> ms" by simp
      qed
      from less.hyps [OF shorter inv(4,5,6,7) sQ bnd2 cap2 far2]
      obtain res where res: "combine_loop ms op v (drop m src1) (off1 + m) (length (P @ [D]))
            ((P @ [D]) @ Q) = Inr res" "ordered res" "\<forall>r \<in> set res. range_fits r"
        "\<forall>k. lookup res k = combined op v ((P @ [D]) @ Q) (off1 + m) (drop m src1) k" by blast
      have "lookup res k = combined op v (P @ Q) off1 src1 k" for k
        using res(4) combined_void_compose [where op = op and v = v and k = k,
            OF pP inv(3) inv(2) bm]
        by (simp add: D_def)
      with unf res(1,2,3) show ?thesis by simp
    qed
    show ?thesis
    proof (cases "post \<noteq> [] \<and> range_includes (hd post) off")
      case True
      then obtain r post' where post: "post = r # post'" by (cases post) auto
      with True have inc: "range_includes r off" by simp
      from f post have fr: "range_fits r" by simp
      define n where "n = min (length src) (last_index r - off)"
      from combine_existing_spec [OF fr inc n_def, of op pre post']
      obtain r' where r': "combine_existing op src off (length pre) (pre @ r # post')
             = (pre @ r' # post', drop n src,
                (if drop n src = [] then off + n else last_index r),
                (if drop n src = [] then length pre else Suc (length pre)))"
        "offset r' = offset r" "last_index r' = last_index r" "range_fits r'"
        "\<forall>k. range_includes r k \<longrightarrow> range_at r' k
                  = (if off \<le> k \<and> k < off + length src
                     then op (range_at r k) (src ! (k - off)) else range_at r k)"
        by blast
      note comp = combined_existing_compose [where v = v and post = post',
          OF pl inc r'(2,3,5) n_def]
      have o': "ordered (pre @ r' # post')"
        using o r'(2,3) unfolding post by (auto simp: ordered_append ordered_Cons)
      have f': "\<forall>x \<in> set (pre @ r' # post'). range_fits x" using f r'(4) post by auto
      show ?thesis
      proof (cases "drop n src = []")
        case True
        with r'(1) have "combine_existing op src off (length pre) (pre @ post)
            = (pre @ r' # post', [], off + n, length pre)" by (simp add: post)
        from combine_loop_done [OF src this]
        have "combine_loop ms op v src off (length pre) (pre @ post) = Inr (pre @ r' # post')" .
        moreover have "lookup (pre @ r' # post') k = combined op v (pre @ post) off src k" for k
          using comp [of k] True by (simp add: combined_Nil post)
        ultimately show ?thesis using o' f' by simp
      next
        case False
        then have nl: "n = last_index r - off" "n < length src"
          by (auto simp: n_def min_def)
        from inc have on: "off + n = last_index r" using nl by (simp add: range_includes_def)
        have ce: "combine_existing op src off (length pre) (pre @ post)
            = ((pre @ [r']) @ post', drop n src, last_index r, length (pre @ [r']))"
          using r'(1) False by (simp add: post)
        have pP: "\<forall>p \<in> set (pre @ [r']). last_index p \<le> last_index r"
          using pl inc r'(3) by (auto simp: range_includes_def)
        have gap: "post' \<noteq> [] \<longrightarrow> last_index r < offset (hd post')"
          using sep unfolding post separated_def by (cases post') auto
        have sQ: "separated post'" using sep unfolding post separated_def by simp
        have bnd': "last_index r + length (drop n src) < 2 ^ 64"
          using bnd nl on by simp
        have cap': "length (drop n src) \<le> ms" using cap by simp
        have far': "\<forall>q \<in> set post'. offset q - last_index r \<le> ms"
        proof
          fix q assume "q \<in> set post'"
          with far post have "offset q - off \<le> ms" by simp
          moreover from inc have "off \<le> last_index r" by (simp add: range_includes_def)
          ultimately show "offset q - last_index r \<le> ms" by simp
        qed
        from void [OF ce False _ _ _ pP gap sQ bnd' cap' far'] o' f'
        obtain res where res: "combine_loop ms op v src off (length pre) (pre @ post) = Inr res"
          "ordered res" "\<forall>r \<in> set res. range_fits r"
          "\<forall>k. lookup res k = combined op v ((pre @ [r']) @ post') (last_index r) (drop n src) k"
          by auto
        have "lookup res k = combined op v (pre @ post) off src k" for k
          using res(4) comp [of k] on by (simp add: post)
        with res(1,2,3) show ?thesis by blast
      qed
    next
      case False
      then have ce: "combine_existing op src off (length pre) (pre @ post)
          = (pre @ post, src, off, length pre)"
        by (cases post) (auto simp: combine_existing_def nth_append)
      have gap: "post \<noteq> [] \<longrightarrow> off < offset (hd post)"
        using False front by (auto simp: range_includes_def)
      from void [OF ce src _ o f pl gap sep bnd cap far] show ?thesis by simp
    qed
  qed
qed

lemma lookup_Some_includes: "lookup rs k = Some x \<Longrightarrow> \<exists>r \<in> set rs. range_includes r k"
  by (induction rs) (auto split: if_splits)

lemma absorb_not_Nil [simp]: "absorb r post \<noteq> []"
  by (induction post arbitrary: r) auto

lemma merge_ranges_spec:
  assumes o: "ordered (ranges s)" and f: "\<forall>r \<in> set (ranges s). range_fits r"
    and i: "i < length (ranges s)"
  shows "\<exists>s'. merge_ranges i s = Inr s' \<and> ordered (ranges s')
           \<and> (\<forall>k. lookup (ranges s') k = lookup (ranges s) k)
           \<and> ranges s' \<noteq> [] \<and> last_index (last (ranges s')) \<le> nominal_size s'"
proof -
  let ?rs = "ranges s"
  let ?pre = "take i ?rs" and ?r = "?rs ! i" and ?post = "drop (Suc i) ?rs"
  have dec: "?rs = ?pre @ ?r # ?post" using id_take_nth_drop [OF i] .
  have li: "length ?pre = i" using i by simp
  let ?res = "?pre @ absorb ?r ?post"
  let ?s' = "fix_size (s\<lparr>ranges := ?res\<rparr>)"
  have ml: "merge_loop i ?rs = ?res"
    using merge_loop_absorb [of ?pre ?r ?post] dec li by simp
  have mr: "merge_ranges i s = Inr ?s'" using i ml by (simp add: merge_ranges_def)
  from o dec ordered_append [of ?pre "?r # ?post"]
  have oP: "ordered ?pre" and oR: "ordered (?r # ?post)"
    and cross: "\<forall>x \<in> set ?pre. \<forall>y \<in> set (?r # ?post). last_index x \<le> offset y"
    by metis+
  from oR have rpos: "offset ?r < last_index ?r" and oQ: "ordered ?post"
    and rq: "\<forall>q \<in> set ?post. last_index ?r \<le> offset q" by (simp_all add: ordered_Cons)
  from f dec have fr: "range_fits ?r" and fq: "\<forall>n \<in> set ?post. range_fits n"
    by (metis in_set_conv_decomp, metis in_set_dropD)
  have "\<forall>n \<in> set ?post. offset ?r \<le> offset n" using rq rpos by fastforce
  from absorb_ordered [OF fr rpos fq oQ this]
  have ab: "ordered (absorb ?r ?post)" "\<forall>x \<in> set (absorb ?r ?post). offset ?r \<le> offset x"
    by simp_all
  have c2: "last_index x \<le> offset y" if "x \<in> set ?pre" "y \<in> set (absorb ?r ?post)" for x y
  proof -
    from that(1) cross have "last_index x \<le> offset ?r" by simp
    also from that(2) ab(2) have "\<dots> \<le> offset y" by blast
    finally show ?thesis .
  qed
  have ores: "ordered ?res" unfolding ordered_append using oP ab(1) c2 by blast
  have lk: "lookup ?res k = lookup ?rs k" for k
  proof -
    have "lookup (absorb ?r ?post) k = lookup (?r # ?post) k"
      using fr rpos fq by (intro absorb_lookup) auto
    then have "lookup ?res k = lookup (?pre @ ?r # ?post) k" by (simp only: lookup_append)
    with dec show ?thesis by simp
  qed
  have ne: "?res \<noteq> []" by simp
  then have "last_index (last (ranges ?s')) \<le> nominal_size ?s'"
    by (simp add: fix_size_def)
  with mr ores lk ne show ?thesis by (intro exI [of _ ?s']) simp
qed

lemma find_extending_range_iter_bound:
  assumes o: "ordered rs" and r: "r \<in> set rs" and inc: "range_includes r off" and idx: "idx \<le> off"
  shows "find_extending_range_iter idx rs < length rs"
proof -
  let ?u = "upper_bound idx rs"
  have ule: "?u \<le> length rs" by (rule upper_bound_le)
  from r have ne: "rs \<noteq> []" by auto
  show ?thesis
  proof (cases "?u < length rs")
    case True
    then show ?thesis by (auto simp: find_extending_range_iter_def find_next_range_iter_def Let_def)
  next
    case False
    with ule have u: "?u = length rs" by simp
    with ne have u0: "?u \<noteq> 0" by simp
    have l: "rs ! (?u - 1) = last rs" using u ne by (simp add: last_conv_nth)
    have "offset (rs ! (?u - 1)) \<le> idx" using u0 by (intro upper_bound_before) simp
    moreover have "idx \<le> last_index (last rs)"
      using ordered_last_max [OF o r] inc idx by (simp add: range_includes_def)
    ultimately have "borders (rs ! (?u - 1)) idx" using l by (simp add: borders_def)
    with u0 u ne show ?thesis
      by (simp add: find_extending_range_iter_def find_next_range_iter_def Let_def)
  qed
qed

lemma find_range_iter_at_or_after_first_after:
  "ordered rs \<Longrightarrow> find_range_iter_at_or_after k rs = first_after k rs"
  using refresh_first_after [of rs k]
  by (simp add: find_range_iter_at_or_after_def find_next_range_iter_def Let_def)

lemma is_void_present:
  assumes o: "ordered (ranges s)" and l: "lookup (ranges s) k = Some x"
    and n: "last_index (last (ranges s)) \<le> nominal_size s"
  shows "is_void s k = Inr False"
proof -
  from lookup_Some_includes [OF l] obtain r where r: "r \<in> set (ranges s)" "range_includes r k"
    by blast
  then have ne: "ranges s \<noteq> []" by auto
  from ordered_last_max [OF o r(1)] r(2) n have kn: "k < size_sv s"
    by (simp add: range_includes_def size_sv_def)
  let ?i = "upper_bound k (ranges s)"
  from get_at_lookup_aux [OF o, of k] l
  have "?i \<noteq> 0 \<and> k < last_index (ranges s ! (?i - 1))"
    by (auto simp: Let_def split: if_splits)
  with ne kn show ?thesis by (simp add: is_void_def find_next_range_iter_def Let_def)
qed

lemma combine_range_spec:
  assumes v: "is_valid s" and f: "data_fits s" and src: "src \<noteq> []"
    and bnd: "off + length src < 2 ^ 64" and cap: "length src \<le> ms"
    and far: "\<forall>r \<in> set (ranges s). offset r - off \<le> ms"
  shows "\<exists>s'. combine_range ms off src op vv s = Inr s' \<and> ordered (ranges s')
           \<and> (\<forall>k. lookup (ranges s') k = combined op vv (ranges s) off src k)
           \<and> ranges s' \<noteq> [] \<and> last_index (last (ranges s')) \<le> nominal_size s'"
proof -
  let ?rs = "ranges s"
  let ?d = "first_after off ?rs"
  note o = is_valid_ordered [OF v]
  have d: "find_range_iter_at_or_after off ?rs = ?d"
    by (rule find_range_iter_at_or_after_first_after [OF o])
  let ?pre = "take ?d ?rs" and ?post = "drop ?d ?rs"
  have dle: "?d \<le> length ?rs" by (rule first_after_le)
  have dec: "?pre @ ?post = ?rs" by simp
  have lp: "length ?pre = ?d" using dle by simp
  have pl: "\<forall>p \<in> set ?pre. last_index p \<le> off"
  proof
    fix p assume "p \<in> set ?pre"
    then obtain j where "j < ?d" "p = ?rs ! j" by (auto simp: in_set_conv_nth)
    with first_after_before [of j off ?rs] show "last_index p \<le> off" by simp
  qed
  have front: "?post \<noteq> [] \<longrightarrow> off < last_index (hd ?post)"
  proof
    assume "?post \<noteq> []"
    then have lt: "?d < length ?rs" by simp
    then have "hd ?post = ?rs ! ?d" by (simp add: hd_drop_conv_nth)
    with first_after_at [OF lt] show "off < last_index (hd ?post)" by simp
  qed
  have sep: "separated ?post" by (rule separated_drop [OF is_valid_separated [OF v]])
  have far': "\<forall>q \<in> set ?post. offset q - off \<le> ms"
    using far by (auto dest: in_set_dropD)
  from combine_loop_spec [where pre = ?pre and post = ?post and off = off and src = src
      and ms = ms and op = op and v = vv] o f pl front sep bnd cap far'
  obtain res where res: "combine_loop ms op vv src off ?d ?rs = Inr res" "ordered res"
    "\<forall>r \<in> set res. range_fits r" "\<forall>k. lookup res k = combined op vv ?rs off src k"
    unfolding dec lp data_fits_iff by blast
  let ?idx = "if off = 0 then 0 else off - 1"
  from res(4) src have "lookup res off = Some (op (cell_or vv (lookup ?rs off)) (src ! 0))"
    by (simp add: combined_def)
  from lookup_Some_includes [OF this] obtain r where r: "r \<in> set res" "range_includes r off"
    by blast
  have "find_extending_range_iter ?idx res < length res"
    by (rule find_extending_range_iter_bound [OF res(2) r]) simp
  from merge_ranges_spec [of "s\<lparr>ranges := res\<rparr>" "find_extending_range_iter ?idx res"] this res(2,3)
  obtain s' where s': "merge_ranges (find_extending_range_iter ?idx res) (s\<lparr>ranges := res\<rparr>) = Inr s'"
    "ordered (ranges s')" "\<forall>k. lookup (ranges s') k = lookup res k"
    "ranges s' \<noteq> []" "last_index (last (ranges s')) \<le> nominal_size s'"
    by auto
  have "combine_range ms off src op vv s = Inr s'"
    using res(1) s'(1) d by (simp add: combine_range_def)
  with s'(2-5) res(4) show ?thesis by auto
qed

text \<open>
  Claim C5, as the code has it. Take a vector that passes \<open>is_valid()\<close> and whose
  ranges hold as many values as they span and end below \<open>2^64\<close>, an offset and an
  input with \<open>off + |src| < 2^64\<close>, and let the size of the input and the distance
  from \<open>off\<close> to the start of every range be at most \<open>max_size()\<close> of the
  vector of values. Then \<open>combine_range(off, src, +, 0)\<close> returns, and afterwards
  every index \<open>off + i\<close> with \<open>i < |src|\<close> reads as what it read before (zero
  for a void cell) plus \<open>src[i]\<close>, and \<open>is_void(off + i)\<close> returns false.
\<close>

theorem C5_combine_range_plus:
  fixes s :: "'a::{zero,plus} sparse_vector"
  assumes "is_valid s" "data_fits s" "off + length src < 2 ^ 64"
    and "length src \<le> max_size" "\<forall>r \<in> set (ranges s). offset r - off \<le> max_size"
    and "i < length src"
  shows "\<exists>s'. combine_range max_size off src (+) 0 s = Inr s'
           \<and> get_at s' (off + i) = get_at s (off + i) + src ! i
           \<and> is_void s' (off + i) = Inr False"
proof -
  from assms(6) have src: "src \<noteq> []" by auto
  from combine_range_spec [OF assms(1,2) src assms(3,4,5), of "(+)" 0]
  obtain s' where s': "combine_range max_size off src (+) 0 s = Inr s'" "ordered (ranges s')"
    "\<forall>k. lookup (ranges s') k = combined (+) 0 (ranges s) off src k"
    "ranges s' \<noteq> []" "last_index (last (ranges s')) \<le> nominal_size s'" by blast
  let ?k = "off + i"
  have old: "get_at s ?k = cell_or 0 (lookup (ranges s) ?k)"
    using get_at_lookup [OF is_valid_ordered [OF assms(1)], of ?k] by (simp add: cell_or_def)
  from s'(3) assms(6) have l: "lookup (ranges s') ?k = Some (get_at s ?k + src ! i)"
    by (simp add: combined_def old)
  with get_at_lookup [OF s'(2), of ?k] have "get_at s' ?k = get_at s ?k + src ! i" by simp
  moreover from is_void_present [OF s'(2) l s'(5)] have "is_void s' ?k = Inr False" .
  ultimately show ?thesis using s'(1) by blast
qed

theorem C5_combine_range_plus_witness:
  "combine_range 2305843009213693951 2 [10, 10, 10, 10] (+) 0
       \<lparr>nominal_size = 10,
         ranges = [\<lparr>offset = 3, last_index = 9, values = [1, 2, 3, 9, 4, 5 :: int]\<rparr>]\<rparr>
     = Inr \<lparr>nominal_size = 10,
            ranges = [\<lparr>offset = 2, last_index = 9, values = [10, 11, 12, 13, 9, 4, 5]\<rparr>]\<rparr>
   \<and> get_at \<lparr>nominal_size = 10,
         ranges = [\<lparr>offset = 2, last_index = 9, values = [10, 11, 12, 13, 9, 4, 5 :: int]\<rparr>]\<rparr> 2
       = 0 + 10
   \<and> get_at \<lparr>nominal_size = 10,
         ranges = [\<lparr>offset = 2, last_index = 9, values = [10, 11, 12, 13, 9, 4, 5 :: int]\<rparr>]\<rparr> 3
       = 1 + 10
   \<and> is_void \<lparr>nominal_size = 10,
         ranges = [\<lparr>offset = 2, last_index = 9, values = [10, 11, 12, 13, 9, 4, 5 :: int]\<rparr>]\<rparr> 2
       = Inr False"
proof -
  let ?s = "\<lparr>nominal_size = 10,
         ranges = [\<lparr>offset = 3, last_index = 9, values = [1, 2, 3, 9, 4, 5 :: int]\<rparr>]\<rparr>"
  have v: "is_valid ?s" by (simp add: is_valid_def range_empty_def)
  have f: "data_fits ?s" by (simp add: data_fits_def range_fits_def range_size_def)
  have b: "2 + length [10, 10, 10, 10 :: int] < 2 ^ 64" by simp
  have c: "length [10, 10, 10, 10 :: int] \<le> 2305843009213693951" by simp
  have d: "\<forall>r \<in> set (ranges ?s). offset r - 2 \<le> 2305843009213693951" by simp
  have e: "combine_range 2305843009213693951 2 [10, 10, 10, 10] (+) 0 ?s
     = Inr \<lparr>nominal_size = 10,
            ranges = [\<lparr>offset = 2, last_index = 9, values = [10, 11, 12, 13, 9, 4, 5]\<rparr>]\<rparr>"
    by (simp add: combine_defs eval_defs)
  have g: "get_at ?s 2 = 0" "get_at ?s 3 = 1" by (simp_all add: eval_defs)
  from C5_combine_range_plus [OF v f b c d, of 0] C5_combine_range_plus [OF v f b c d, of 1] e g
  show ?thesis by simp
qed

text \<open>
  Claim C5 as stated holds for every vector, offset and input. Three calls where it does
  not, \<open>max_size()\<close> being \<open>2^61 - 1\<close>.

  On the valid vector with the ranges \<open>[0,2)\<close> and \<open>[4,6)\<close>,
  \<open>combine_range(3, {1,1}, +, 0)\<close> leaves the ranges \<open>[0,2)\<close>, \<open>[3,4)\<close> and
  \<open>[4,6)\<close>. On that vector \<open>combine_range(3, {10,20,30}, +, 0)\<close> combines 10 into
  \<open>[3,4)\<close>, finds no void before \<open>[4,6)\<close>, inserts nothing, takes the end of
  \<open>[4,6)\<close> as its offset, and puts 20 and 30 in the new range \<open>[6,8)\<close>: index 4
  reads 2 where the claim has \<open>2 + 20\<close>, and index 5 reads 1 where it has \<open>1 + 30\<close>.

  On the empty vector, \<open>combine_range(2^64 - 1, {1,2}, +, 0)\<close> builds a range whose end
  \<open>offset + 2\<close> wraps; the range counts as empty, \<open>insert_range\<close> returns the end
  of the list, and the code reads \<open>end_index()\<close> there.

  On the vector with the range \<open>[2^62, 2^62 + 1)\<close>, \<open>combine_range(0, {1}, +, 0)\<close>
  reserves room for the \<open>2^62\<close> cells before that range and throws
  \<open>std::length_error\<close>.
\<close>

theorem C5_combine_range_plus_counterexample:
  "is_valid \<lparr>nominal_size = 6,
            ranges = [\<lparr>offset = 0, last_index = 2, values = [1, 1 :: int]\<rparr>,
                      \<lparr>offset = 4, last_index = 6, values = [1, 1]\<rparr>]\<rparr>
   \<and> combine_range 2305843009213693951 3 [1, 1] (+) 0
        \<lparr>nominal_size = 6,
          ranges = [\<lparr>offset = 0, last_index = 2, values = [1, 1 :: int]\<rparr>,
                    \<lparr>offset = 4, last_index = 6, values = [1, 1]\<rparr>]\<rparr>
     = Inr \<lparr>nominal_size = 6,
            ranges = [\<lparr>offset = 0, last_index = 2, values = [1, 1]\<rparr>,
                      \<lparr>offset = 3, last_index = 4, values = [1]\<rparr>,
                      \<lparr>offset = 4, last_index = 6, values = [2, 1]\<rparr>]\<rparr>
   \<and> combine_range 2305843009213693951 3 [10, 20, 30] (+) 0
        \<lparr>nominal_size = 6,
          ranges = [\<lparr>offset = 0, last_index = 2, values = [1, 1 :: int]\<rparr>,
                    \<lparr>offset = 3, last_index = 4, values = [1]\<rparr>,
                    \<lparr>offset = 4, last_index = 6, values = [2, 1]\<rparr>]\<rparr>
     = Inr \<lparr>nominal_size = 8,
            ranges = [\<lparr>offset = 0, last_index = 2, values = [1, 1]\<rparr>,
                      \<lparr>offset = 3, last_index = 4, values = [11]\<rparr>,
                      \<lparr>offset = 4, last_index = 6, values = [2, 1]\<rparr>,
                      \<lparr>offset = 6, last_index = 8, values = [20, 30]\<rparr>]\<rparr>
   \<and> get_at \<lparr>nominal_size = 6,
          ranges = [\<lparr>offset = 0, last_index = 2, values = [1, 1 :: int]\<rparr>,
                    \<lparr>offset = 3, last_index = 4, values = [1]\<rparr>,
                    \<lparr>offset = 4, last_index = 6, values = [2, 1]\<rparr>]\<rparr> (3 + 1)
       + [10, 20, 30] ! 1 = 22
   \<and> get_at \<lparr>nominal_size = 8,
            ranges = [\<lparr>offset = 0, last_index = 2, values = [1, 1 :: int]\<rparr>,
                      \<lparr>offset = 3, last_index = 4, values = [11]\<rparr>,
                      \<lparr>offset = 4, last_index = 6, values = [2, 1]\<rparr>,
                      \<lparr>offset = 6, last_index = 8, values = [20, 30]\<rparr>]\<rparr> (3 + 1) = 2
   \<and> combine_range 2305843009213693951 18446744073709551615 [1, 2] (+) 0
        (sparse_vector_default :: int sparse_vector) = Inl Undefined
   \<and> add_range 4611686018427387904 [5] sparse_vector_default
     = Inr \<lparr>nominal_size = 4611686018427387905,
            ranges = [\<lparr>offset = 4611686018427387904, last_index = 4611686018427387905,
                       values = [5 :: int]\<rparr>]\<rparr>
   \<and> combine_range 2305843009213693951 0 [1] (+) 0
        \<lparr>nominal_size = 4611686018427387905,
          ranges = [\<lparr>offset = 4611686018427387904, last_index = 4611686018427387905,
                     values = [5 :: int]\<rparr>]\<rparr>
     = Inl LengthError"
  by (simp add: combine_defs eval_defs is_valid_def less_range_def separate_def)

section \<open>Where the code leaves the canonical form\<close>

text \<open>
  Claim C1 (every vector reached by the public mutating operations passes \<open>is_valid()\<close>),
  evaluated on the code: two calls of \<open>add_range\<close> on an empty vector give the ranges
  \<open>[0,2)\<close> and \<open>[4,6)\<close>, a valid vector. \<open>combine_range(3, {1,1}, +, 0)\<close> then
  creates the range \<open>[3,4)\<close> and combines into \<open>[4,6)\<close>; its final merge starts at
  the range \<open>[0,2)\<close>, which borders index 2 but not index 3, and merges nothing. The
  ranges \<open>[3,4)\<close> and \<open>[4,6)\<close> stay adjacent and \<open>is_valid()\<close> is false.
  This is so whatever \<open>max_size()\<close> of the vector of values is, above zero.
\<close>

theorem C1_combine_range_leaves_adjacent_ranges:
  "add_range 0 [1, 1] sparse_vector_default
     = Inr \<lparr>nominal_size = 2, ranges = [\<lparr>offset = 0, last_index = 2, values = [1, 1 :: int]\<rparr>]\<rparr>
   \<and> add_range 4 [1, 1]
        \<lparr>nominal_size = 2, ranges = [\<lparr>offset = 0, last_index = 2, values = [1, 1 :: int]\<rparr>]\<rparr>
     = Inr \<lparr>nominal_size = 6,
            ranges = [\<lparr>offset = 0, last_index = 2, values = [1, 1]\<rparr>,
                      \<lparr>offset = 4, last_index = 6, values = [1, 1]\<rparr>]\<rparr>
   \<and> is_valid \<lparr>nominal_size = 6,
            ranges = [\<lparr>offset = 0, last_index = 2, values = [1, 1 :: int]\<rparr>,
                      \<lparr>offset = 4, last_index = 6, values = [1, 1]\<rparr>]\<rparr>
   \<and> combine_range (Suc max_size) 3 [1, 1] (+) 0
        \<lparr>nominal_size = 6,
          ranges = [\<lparr>offset = 0, last_index = 2, values = [1, 1 :: int]\<rparr>,
                    \<lparr>offset = 4, last_index = 6, values = [1, 1]\<rparr>]\<rparr>
     = Inr \<lparr>nominal_size = 6,
            ranges = [\<lparr>offset = 0, last_index = 2, values = [1, 1]\<rparr>,
                      \<lparr>offset = 3, last_index = 4, values = [1]\<rparr>,
                      \<lparr>offset = 4, last_index = 6, values = [2, 1]\<rparr>]\<rparr>
   \<and> \<not> is_valid \<lparr>nominal_size = 6,
            ranges = [\<lparr>offset = 0, last_index = 2, values = [1, 1 :: int]\<rparr>,
                      \<lparr>offset = 3, last_index = 4, values = [1]\<rparr>,
                      \<lparr>offset = 4, last_index = 6, values = [2, 1]\<rparr>]\<rparr>"
  by (simp add: combine_defs eval_defs is_valid_def less_range_def separate_def)

text \<open>
  Claim C3 (\<open>combine_range\<close> with the operator that returns its second operand gives
  the same vector as \<open>add_range\<close>), evaluated on the code at the same vector: the
  element values agree, but \<open>add_range(3, {7,8})\<close> ends with the ranges \<open>[0,2)\<close>
  and \<open>[3,6)\<close>, while \<open>combine_range\<close> ends with \<open>[0,2)\<close>, \<open>[3,4)\<close> and
  \<open>[4,6)\<close>, whatever \<open>max_size()\<close> of the vector of values is, above zero.
\<close>

theorem C3_combine_range_second_differs_from_add_range:
  "add_range 3 [7, 8]
        \<lparr>nominal_size = 6,
          ranges = [\<lparr>offset = 0, last_index = 2, values = [1, 1 :: int]\<rparr>,
                    \<lparr>offset = 4, last_index = 6, values = [1, 1]\<rparr>]\<rparr>
     = Inr \<lparr>nominal_size = 6,
            ranges = [\<lparr>offset = 0, last_index = 2, values = [1, 1]\<rparr>,
                      \<lparr>offset = 3, last_index = 6, values = [7, 8, 1]\<rparr>]\<rparr>
   \<and> combine_range (Suc max_size) 3 [7, 8] (\<lambda>a b. b) 0
        \<lparr>nominal_size = 6,
          ranges = [\<lparr>offset = 0, last_index = 2, values = [1, 1 :: int]\<rparr>,
                    \<lparr>offset = 4, last_index = 6, values = [1, 1]\<rparr>]\<rparr>
     = Inr \<lparr>nominal_size = 6,
            ranges = [\<lparr>offset = 0, last_index = 2, values = [1, 1]\<rparr>,
                      \<lparr>offset = 3, last_index = 4, values = [7]\<rparr>,
                      \<lparr>offset = 4, last_index = 6, values = [8, 1]\<rparr>]\<rparr>"
  by (simp add: combine_defs eval_defs)

section \<open>\<open>is_void\<close> on a vector without ranges\<close>

text \<open>
  Claim C6 (\<open>is_void(k)\<close> fails exactly when \<open>k >= N\<close>, the vector being empty iff
  \<open>N = 0\<close>), evaluated on the code: the vector of ten void cells has size 10 and no
  range, and \<open>is_void(3)\<close> throws \<open>std::out_of_range\<close>.
\<close>

theorem C6_is_void_throws_in_all_void_vector:
  "sparse_vector_sized 10 = (\<lparr>nominal_size = 10, ranges = []\<rparr> :: int sparse_vector)
   \<and> size_sv (sparse_vector_sized 10 :: int sparse_vector) = 10
   \<and> is_void (sparse_vector_sized 10 :: int sparse_vector) 3 = Inl OutOfRange"
  by (simp add: sparse_vector_sized_def resize_def sparse_vector_default_def size_sv_def
      is_void_def)

text \<open>
  Claim C7 (after \<open>set_at(k, v); unset_at(k)\<close> the call \<open>is_void(k)\<close> returns true),
  evaluated on the code: on the vector of ten void cells, \<open>set_at(3, 1)\<close> creates the
  range \<open>[3,4)\<close>, \<open>unset_at(3)\<close> removes it, and \<open>is_void(3)\<close> throws
  \<open>std::out_of_range\<close> since no range is left.
\<close>

theorem C7_is_void_throws_after_set_unset:
  "set_at 3 1 (sparse_vector_sized 10)
     = Inr \<lparr>nominal_size = 10, ranges = [\<lparr>offset = 3, last_index = 4, values = [1 :: int]\<rparr>]\<rparr>
   \<and> unset_at room 3
        \<lparr>nominal_size = 10, ranges = [\<lparr>offset = 3, last_index = 4, values = [1 :: int]\<rparr>]\<rparr>
     = Inr \<lparr>nominal_size = 10, ranges = []\<rparr>
   \<and> is_void (\<lparr>nominal_size = 10, ranges = []\<rparr> :: int sparse_vector) 3 = Inl OutOfRange"
  by (simp add: eval_defs set_at_def unset_at_def is_void_def sparse_vector_sized_def resize_def)

section \<open>Increment of an iterator\<close>

lemma increment_funpow_cont:
  "cont it = Some c \<Longrightarrow> index it \<le> size_sv c \<Longrightarrow>
     cont ((increment ^^ n) it) = Some c \<and> index ((increment ^^ n) it) \<le> size_sv c"
  by (induction n) (auto simp: increment_def Let_def)

text \<open>
  Claim C9. The constructor from a container and an offset gives an iterator of that
  container whose index is at most the size of the container. Any number of applications
  of \<open>operator++\<close> to an iterator of a container whose index is at most the size keeps
  the index at most the size. On an iterator whose index is the size, \<open>operator++\<close>
  changes nothing, and the result compares equal to \<open>end()\<close>.
\<close>

theorem C9_increment_stays_in_range:
  "cont (const_iterator_at c off) = Some c
   \<and> index (const_iterator_at c off) \<le> size_sv c
   \<and> (cont it = Some c \<and> index it \<le> size_sv c \<longrightarrow>
        cont ((increment ^^ n) it) = Some c \<and> index ((increment ^^ n) it) \<le> size_sv c)
   \<and> (cont it = Some c \<and> index it = size_sv c \<longrightarrow>
        increment it = it \<and> iterator_eq (increment it) (end_sv c))"
  using increment_funpow_cont [of it c n]
  by (auto simp: const_iterator_at_def refresh_state_def Let_def increment_def
      iterator_eq_def end_sv_def)

theorem C9_increment_stays_in_range_witness:
  "index ((increment ^^ 5)
       (const_iterator_at
          \<lparr>nominal_size = 3, ranges = [\<lparr>offset = 1, last_index = 2, values = [7 :: int]\<rparr>]\<rparr> 1))
     \<le> 3
   \<and> increment (end_sv \<lparr>nominal_size = 3,
                   ranges = [\<lparr>offset = 1, last_index = 2, values = [7 :: int]\<rparr>]\<rparr>)
     = end_sv \<lparr>nominal_size = 3, ranges = [\<lparr>offset = 1, last_index = 2, values = [7 :: int]\<rparr>]\<rparr>"
  using C9_increment_stays_in_range
     [of "\<lparr>nominal_size = 3, ranges = [\<lparr>offset = 1, last_index = 2, values = [7 :: int]\<rparr>]\<rparr>" 1
         "const_iterator_at
            \<lparr>nominal_size = 3, ranges = [\<lparr>offset = 1, last_index = 2, values = [7 :: int]\<rparr>]\<rparr> 1" 5]
    C9_increment_stays_in_range
     [of "\<lparr>nominal_size = 3, ranges = [\<lparr>offset = 1, last_index = 2, values = [7 :: int]\<rparr>]\<rparr>" 1
         "end_sv \<lparr>nominal_size = 3, ranges = [\<lparr>offset = 1, last_index = 2, values = [7 :: int]\<rparr>]\<rparr>" 0]
  by (simp add: size_sv_def end_sv_def)

section \<open>A reference to a void cell\<close>

text \<open>
  Claim C10, as the code has it. For a void index \<open>k < N\<close> (no range includes
  \<open>k\<close>), the mutable \<open>operator[]\<close> returns a reference with a null pointer; its
  conversion to \<open>value_type\<close> by the operators of \<open>const_reference\<close> gives
  \<open>value_zero\<close>, the result of the read-only \<open>operator[]\<close>; the assignment through
  this reference and its explicit conversion to \<open>value_type&\<close> both dereference the
  null pointer.
\<close>

theorem C10_reference_to_void_cell:
  assumes "k < size_sv s" "\<not> list_ex (\<lambda>r. range_includes r k) (ranges s)"
  shows "at_mutable s k = None
       \<and> reference_value s (at_mutable s k) = 0
       \<and> reference_value s (at_mutable s k) = get_at s k
       \<and> reference_assign s (at_mutable s k) v = Inl Undefined
       \<and> reference_lvalue (at_mutable s k) = Inl Undefined"
proof -
  let ?i = "find_next_range_iter k (ranges s)"
  have out: "\<not> k < last_index (ranges s ! (?i - 1))" if "?i \<noteq> 0"
  proof
    assume lt: "k < last_index (ranges s ! (?i - 1))"
    from that have "?i - 1 < upper_bound k (ranges s)" by (simp add: find_next_range_iter_def)
    from upper_bound_before [OF this] have "offset (ranges s ! (?i - 1)) \<le> k" .
    with lt have "range_includes (ranges s ! (?i - 1)) k" by (simp add: range_includes_def)
    moreover have "ranges s ! (?i - 1) \<in> set (ranges s)"
      using that upper_bound_le [of k "ranges s"] by (simp add: find_next_range_iter_def)
    ultimately show False using assms(2) by (auto simp: list_ex_iff)
  qed
  then have none: "at_mutable s k = None" by (auto simp: at_mutable_def Let_def)
  have "get_at s k = 0" using out by (auto simp: get_at_def Let_def)
  with none show ?thesis
    by (simp add: reference_value_def reference_assign_def reference_lvalue_def)
qed

theorem C10_reference_to_void_cell_witness:
  "at_mutable \<lparr>nominal_size = 10,
       ranges = [\<lparr>offset = 3, last_index = 6, values = [1, 2, 3 :: int]\<rparr>]\<rparr> 7 = None
   \<and> get_at \<lparr>nominal_size = 10,
       ranges = [\<lparr>offset = 3, last_index = 6, values = [1, 2, 3 :: int]\<rparr>]\<rparr> 7 = 0
   \<and> reference_assign \<lparr>nominal_size = 10,
       ranges = [\<lparr>offset = 3, last_index = 6, values = [1, 2, 3 :: int]\<rparr>]\<rparr> None 5
       = Inl Undefined"
  using C10_reference_to_void_cell
     [of 7 "\<lparr>nominal_size = 10,
       ranges = [\<lparr>offset = 3, last_index = 6, values = [1, 2, 3 :: int]\<rparr>]\<rparr>" 5]
  by (auto simp: size_sv_def range_includes_def)

text \<open>
  Claim C10 as stated says that only the assignment through the reference to a void cell
  is invalid. On the vector of ten void cells, the explicit conversion of the reference
  returned for index 3 to \<open>value_type&\<close> dereferences the null pointer as well.
\<close>

theorem C10_lvalue_of_void_reference_counterexample:
  "at_mutable (sparse_vector_sized 10 :: int sparse_vector) 3 = None
   \<and> reference_lvalue (at_mutable (sparse_vector_sized 10 :: int sparse_vector) 3)
       = Inl Undefined"
  by (simp add: sparse_vector_sized_def resize_def sparse_vector_default_def size_sv_def
      at_mutable_def find_next_range_iter_def reference_lvalue_def)

end
